theory Spec2Isabelle
  imports Complex_Main
begin

section \<open>Python values\<close>

text \<open>
  A Python \<open>str\<close> is a sequence of Unicode code points; the program's patterns and
  literals are Korean, so a string is kept as the list of its code points rather than as
  bytes. \<open>ascii\<close> turns an ASCII literal into such a string.
\<close>

type_synonym pystr = "nat list"

definition ascii :: "string \<Rightarrow> pystr" where
  "ascii s = map of_char s"

text \<open>
  The values that \<open>json.loads\<close> produces and that the records of \<open>parse_chat\<close> hold.
  A \<open>dict\<close> keeps insertion order, so it is an association list; Python keeps its keys
  distinct. A \<open>float\<close> is kept as the exact decimal value it was read from (Python rounds
  that value to binary64; the program never computes with, nor compares, a float).
\<close>

datatype json =
    JNull
  | JBool bool
  | JInt int
  | JFloat rat
  | JStr pystr
  | JList "json list"
  | JDict "(pystr \<times> json) list"

type_synonym pydict = "(pystr \<times> json) list"

datatype py_error = ValueError | TypeError | AttributeError

subsection \<open>Dictionary operations\<close>

text \<open>\<open>d.get(k)\<close> and \<open>k in d\<close>.\<close>

definition dict_get :: "('k \<times> 'v) list \<Rightarrow> 'k \<Rightarrow> 'v option" where
  "dict_get d k = map_of d k"

definition dict_has :: "('k \<times> 'v) list \<Rightarrow> 'k \<Rightarrow> bool" where
  "dict_has d k = (k \<in> set (map fst d))"

text \<open>
  \<open>d[k] = v\<close>: an existing key keeps its position and gets the new value, a new key is
  appended.
\<close>

fun dict_set :: "('k \<times> 'v) list \<Rightarrow> 'k \<Rightarrow> 'v \<Rightarrow> ('k \<times> 'v) list" where
  "dict_set [] k v = [(k, v)]"
| "dict_set ((k', v') # d) k v = (if k' = k then (k, v) # d else (k', v') # dict_set d k v)"

text \<open>\<open>d.update(e)\<close>: every item of \<open>e\<close>, in order, is stored into \<open>d\<close>.\<close>

definition dict_update :: "('k \<times> 'v) list \<Rightarrow> ('k \<times> 'v) list \<Rightarrow> ('k \<times> 'v) list" where
  "dict_update d e = fold (\<lambda>(k, v) acc. dict_set acc k v) e d"

section \<open>The Merger: \<open>merge_into_pets\<close>\<close>

definition k_name :: pystr where "k_name = ascii ''name''"
definition k_grade :: pystr where "k_grade = ascii ''grade''"
definition k_s0 :: pystr where "k_s0 = ascii ''s0''"
definition k_sg :: pystr where "k_sg = ascii ''sg''"
definition k_attr :: pystr where "k_attr = ascii ''attr''"
definition k_route :: pystr where "k_route = ascii ''route''"

text \<open>The tuple \<open>("grade", "s0", "sg", "attr", "route")\<close> of the three inner loops.\<close>

definition merge_keys :: "pystr list" where
  "merge_keys = [k_grade, k_s0, k_sg, k_attr, k_route]"

text \<open>
  One round of the inner loop over an existing target (lines 171-177 and 197-202):
  \<^verbatim>\<open>
  if key not in extra: continue
  if isinstance(extra[key], dict) and isinstance(target.get(key), dict):
      target[key].update(extra[key])
  else:
      target[key] = extra[key]
  \<close>
  \<open>target[key].update(...)\<close> changes the sub-dictionary in place, so the key keeps its
  position in \<open>target\<close>.
\<close>

definition merge_key :: "pydict \<Rightarrow> pydict \<Rightarrow> pystr \<Rightarrow> pydict" where
  "merge_key extra target key =
     (case dict_get extra key of
        None \<Rightarrow> target
      | Some v \<Rightarrow>
          (case v of
             JDict e \<Rightarrow>
               (case dict_get target key of
                  Some (JDict t) \<Rightarrow> dict_set target key (JDict (dict_update t e))
                | _ \<Rightarrow> dict_set target key v)
           | _ \<Rightarrow> dict_set target key v))"

definition merge_fields :: "pydict \<Rightarrow> pydict \<Rightarrow> pydict" where
  "merge_fields target extra = fold (\<lambda>key t. merge_key extra t key) merge_keys target"

text \<open>
  The body of the loop over \<open>patch.items()\<close> for a \<open>dict\<close> dataset (lines 163-177).
  \<open>data.get(name)\<close> is \<open>None\<close> both for a missing name and for a name stored with
  JSON \<open>null\<close>; in both cases a fresh \<open>{}\<close> is stored under the name and filled.
  A target that is not a \<open>dict\<close> is skipped.
\<close>

definition merge_dict_entry :: "pydict \<Rightarrow> pystr \<times> pydict \<Rightarrow> pydict" where
  "merge_dict_entry data entry =
     (case entry of (name, extra) \<Rightarrow>
        (case dict_get data name of
           None \<Rightarrow> dict_set data name (JDict (merge_fields [] extra))
         | Some JNull \<Rightarrow> dict_set data name (JDict (merge_fields [] extra))
         | Some (JDict target) \<Rightarrow> dict_set data name (JDict (merge_fields target extra))
         | Some _ \<Rightarrow> data))"

text \<open>
  The index \<open>by_name\<close> of a \<open>list\<close> dataset (lines 182-185):
  \<^verbatim>\<open>
  for obj in data:
      if isinstance(obj, dict) and "name" in obj:
          by_name[obj["name"]] = obj
  \<close>
  \<open>by_name\<close> holds references to the objects of \<open>data\<close>; the model holds their
  positions. A name that is a \<open>list\<close> or a \<open>dict\<close> is unhashable and the store raises
  \<open>TypeError\<close>. A name that is a number, a boolean or \<open>null\<close> is stored under a key that
  equals no \<open>str\<close>, so no later \<open>by_name.get(name)\<close> finds it: the model leaves it out.
\<close>

fun index_names :: "json list \<Rightarrow> nat \<Rightarrow> (pystr \<times> nat) list \<Rightarrow> py_error + (pystr \<times> nat) list" where
  "index_names [] i by_name = Inr by_name"
| "index_names (obj # rest) i by_name =
     (case obj of
        JDict d \<Rightarrow>
          (case dict_get d k_name of
             None \<Rightarrow> index_names rest (Suc i) by_name
           | Some (JStr n) \<Rightarrow> index_names rest (Suc i) (dict_set by_name n i)
           | Some (JList _) \<Rightarrow> Inl TypeError
           | Some (JDict _) \<Rightarrow> Inl TypeError
           | Some _ \<Rightarrow> index_names rest (Suc i) by_name)
      | _ \<Rightarrow> index_names rest (Suc i) by_name)"

text \<open>
  The object built for a name that \<open>by_name\<close> does not know (lines 190-193): \<open>name\<close>
  and the recognised fields that \<open>extra\<close> has.
\<close>

definition new_obj :: "pystr \<Rightarrow> pydict \<Rightarrow> pydict" where
  "new_obj name extra =
     fold (\<lambda>key obj. case dict_get extra key of None \<Rightarrow> obj | Some v \<Rightarrow> dict_set obj key v)
       merge_keys [(k_name, JStr name)]"

text \<open>
  The target of a known name is changed in place, at its position in \<open>data\<close>. An
  indexed object is always a \<open>dict\<close>; anything else is left as it is.
\<close>

fun merge_at :: "json list \<Rightarrow> nat \<Rightarrow> pydict \<Rightarrow> json list" where
  "merge_at [] i extra = []"
| "merge_at (obj # rest) 0 extra =
     (case obj of JDict target \<Rightarrow> JDict (merge_fields target extra) # rest | _ \<Rightarrow> obj # rest)"
| "merge_at (obj # rest) (Suc i) extra = obj # merge_at rest i extra"

definition merge_list_entry :: "(pystr \<times> nat) list \<Rightarrow> json list \<Rightarrow> pystr \<times> pydict \<Rightarrow> json list" where
  "merge_list_entry by_name data entry =
     (case entry of (name, extra) \<Rightarrow>
        (case dict_get by_name name of
           None \<Rightarrow> data @ [JDict (new_obj name extra)]
         | Some i \<Rightarrow> merge_at data i extra))"

text \<open>
  \<open>merge_into_pets\<close>, from the value that \<open>json.loads\<close> returned. The function changes
  \<open>data\<close> in place and returns it; both errors are raised before anything is changed.
\<close>

definition merge_into_pets :: "json \<Rightarrow> (pystr \<times> pydict) list \<Rightarrow> py_error + json" where
  "merge_into_pets data patch =
     (case data of
        JDict d \<Rightarrow> Inr (JDict (fold (\<lambda>entry acc. merge_dict_entry acc entry) patch d))
      | JList xs \<Rightarrow>
          (case index_names xs 0 [] of
             Inl e \<Rightarrow> Inl e
           | Inr by_name \<Rightarrow>
               Inr (JList (fold (\<lambda>entry acc. merge_list_entry by_name acc entry) patch xs)))
      | _ \<Rightarrow> Inl ValueError)"

subsection \<open>Predicates used to state the Merger's properties\<close>

text \<open>An object whose \<open>name\<close> is a \<open>list\<close> or a \<open>dict\<close>: the key that \<open>by_name\<close> cannot hash.\<close>

definition unhashable_name :: "json \<Rightarrow> bool" where
  "unhashable_name obj =
     (case obj of
        JDict d \<Rightarrow> (case dict_get d k_name of Some (JList _) \<Rightarrow> True | Some (JDict _) \<Rightarrow> True | _ \<Rightarrow> False)
      | _ \<Rightarrow> False)"

text \<open>The string name of an object of a sequence dataset, and the objects carrying a given name.\<close>

definition str_name :: "json \<Rightarrow> pystr option" where
  "str_name obj = (case obj of JDict d \<Rightarrow> (case dict_get d k_name of Some (JStr n) \<Rightarrow> Some n | _ \<Rightarrow> None) | _ \<Rightarrow> None)"

definition named :: "pystr \<Rightarrow> json \<Rightarrow> bool" where
  "named n obj = (case obj of JDict d \<Rightarrow> dict_get d k_name = Some (JStr n) | _ \<Rightarrow> False)"

definition is_dict :: "json \<Rightarrow> bool" where
  "is_dict v = (case v of JDict _ \<Rightarrow> True | _ \<Rightarrow> False)"

definition is_list :: "json \<Rightarrow> bool" where
  "is_list v = (case v of JList _ \<Rightarrow> True | _ \<Rightarrow> False)"

section \<open>Text\<close>

text \<open>
  The characters for which \<open>str.isspace()\<close> holds. \<open>str.strip()\<close>, \<open>str.split()\<close> and the
  pattern \<open>\s\<close> of a \<open>str\<close> pattern all use this set.
\<close>

definition is_space :: "nat \<Rightarrow> bool" where
  "is_space c \<longleftrightarrow>
     (9 \<le> c \<and> c \<le> 13) \<or> (28 \<le> c \<and> c \<le> 32) \<or> c = 133 \<or> c = 160 \<or> c = 5760 \<or>
     (8192 \<le> c \<and> c \<le> 8202) \<or> c = 8232 \<or> c = 8233 \<or> c = 8239 \<or> c = 8287 \<or> c = 12288"

text \<open>The line boundaries of \<open>str.splitlines()\<close>.\<close>

definition is_linebreak :: "nat \<Rightarrow> bool" where
  "is_linebreak c \<longleftrightarrow>
     (10 \<le> c \<and> c \<le> 13) \<or> (28 \<le> c \<and> c \<le> 30) \<or> c = 133 \<or> c = 8232 \<or> c = 8233"

text \<open>
  The decimal digits of Unicode (category Nd, the pattern \<open>\d\<close>) come in runs of ten,
  \<open>0\<close> to \<open>9\<close>; the list holds the code point of the zero of each run (Unicode 14).
  \<open>py_decimal\<close> is the value of a digit, as \<open>int()\<close> and \<open>float()\<close> read it.
\<close>

definition nd_zeros :: "nat list" where
  "nd_zeros = [48, 1632, 1776, 1984, 2406, 2534, 2662, 2790, 2918, 3046, 3174, 3302, 3430,
     3558, 3664, 3792, 3872, 4160, 4240, 6112, 6160, 6470, 6608, 6784, 6800, 6992, 7088, 7232,
     7248, 42528, 43216, 43264, 43472, 43504, 43600, 44016, 65296, 66720, 68912, 69734, 69872,
     69942, 70096, 70384, 70736, 70864, 71248, 71360, 71472, 71904, 72016, 72784, 73040, 73120,
     92768, 92864, 93008, 120782, 120792, 120802, 120812, 120822, 123200, 123632, 125264,
     130032]"

definition py_decimal :: "nat \<Rightarrow> nat option" where
  "py_decimal c = map_option (\<lambda>z. c - z) (find (\<lambda>z. z \<le> c \<and> c < z + 10) nd_zeros)"

definition is_digit :: "nat \<Rightarrow> bool" where
  "is_digit c \<longleftrightarrow> py_decimal c \<noteq> None"

text \<open>\<open>s.strip()\<close>.\<close>

definition strip :: "pystr \<Rightarrow> pystr" where
  "strip s = rev (dropWhile is_space (rev (dropWhile is_space s)))"

text \<open>\<open>s.split()\<close>: the maximal runs of characters that are not white space.\<close>

fun split_acc :: "pystr \<Rightarrow> pystr \<Rightarrow> pystr list" where
  "split_acc acc [] = (if acc = [] then [] else [acc])"
| "split_acc acc (c # cs) =
     (if is_space c then (if acc = [] then split_acc [] cs else acc # split_acc [] cs)
      else split_acc (acc @ [c]) cs)"

definition split :: "pystr \<Rightarrow> pystr list" where
  "split s = split_acc [] s"

text \<open>
  \<open>s.splitlines()\<close>: \<open>\r\n\<close> is one boundary, and a boundary at the very end opens no
  further line.
\<close>

fun lines_acc :: "pystr \<Rightarrow> pystr \<Rightarrow> pystr list" where
  "lines_acc acc [] = (if acc = [] then [] else [acc])"
| "lines_acc acc [c] = (if is_linebreak c then [acc] else [acc @ [c]])"
| "lines_acc acc (c # d # cs) =
     (if c = 13 \<and> d = 10 then acc # lines_acc [] cs
      else if is_linebreak c then acc # lines_acc [] (d # cs)
      else lines_acc (acc @ [c]) (d # cs))"

definition splitlines :: "pystr \<Rightarrow> pystr list" where
  "splitlines s = lines_acc [] s"

text \<open>\<open>sub in s\<close>.\<close>

fun contains :: "pystr \<Rightarrow> pystr \<Rightarrow> bool" where
  "contains sub [] = (sub = [])"
| "contains sub (c # cs) = (take (length sub) (c # cs) = sub \<or> contains sub cs)"

section \<open>Regular expressions\<close>

text \<open>
  The fragment of Python's \<open>re\<close> that the six patterns use: a pattern is a sequence of
  items; a quantifier applies to one character class and is greedy; \<open>Opt\<close> is \<open>(?:...)?\<close>
  and \<open>Grp\<close> a capturing group. \<open>End_grp\<close> is not written in a pattern: the matcher puts
  it behind the body of a group, with the text that was left when the group was entered.
\<close>

datatype rx =
    Lit nat
  | Cls "nat \<Rightarrow> bool"
  | Star "nat \<Rightarrow> bool"
  | Plus "nat \<Rightarrow> bool"
  | Opt "rx list"
  | Grp string "rx list"
  | End_grp string pystr

type_synonym captures = "(string \<times> pystr) list"

fun rx_size :: "rx \<Rightarrow> nat" where
  "rx_size (Lit _) = 1"
| "rx_size (Cls _) = 1"
| "rx_size (Star _) = 1"
| "rx_size (Plus _) = 2"
| "rx_size (Opt g) = Suc (sum_list (map rx_size g))"
| "rx_size (Grp _ g) = Suc (Suc (sum_list (map rx_size g)))"
| "rx_size (End_grp _ _) = 1"

text \<open>
  Backtracking matching at the start of a text, as \<open>re\<close> does it: a greedy quantifier
  first takes as many characters as it can and gives them back one by one while the rest of
  the pattern fails; an optional part is tried before it is skipped. The result is the
  captured groups (the latest first) and the text behind the match.
\<close>

function rmatch :: "rx list \<Rightarrow> pystr \<Rightarrow> captures \<Rightarrow> (captures \<times> pystr) option" where
  "rmatch [] s c = Some (c, s)"
| "rmatch (Lit x # r) [] c = None"
| "rmatch (Lit x # r) (y # t) c = (if y = x then rmatch r t c else None)"
| "rmatch (Cls p # r) [] c = None"
| "rmatch (Cls p # r) (y # t) c = (if p y then rmatch r t c else None)"
| "rmatch (Star p # r) [] c = rmatch r [] c"
| "rmatch (Star p # r) (y # t) c =
     (if p y then
        (case rmatch (Star p # r) t c of Some m \<Rightarrow> Some m | None \<Rightarrow> rmatch r (y # t) c)
      else rmatch r (y # t) c)"
| "rmatch (Plus p # r) [] c = None"
| "rmatch (Plus p # r) (y # t) c = (if p y then rmatch (Star p # r) t c else None)"
| "rmatch (Opt g # r) s c =
     (case rmatch (g @ r) s c of Some m \<Rightarrow> Some m | None \<Rightarrow> rmatch r s c)"
| "rmatch (Grp n g # r) s c = rmatch (g @ End_grp n s # r) s c"
| "rmatch (End_grp n s0 # r) s c = rmatch r s ((n, take (length s0 - length s) s0) # c)"
  by pat_completeness auto
termination
  by (relation "measures [\<lambda>(r, s, c). sum_list (map rx_size r), \<lambda>(r, s, c). length s]") auto

text \<open>\<open>pattern.match(s)\<close> and \<open>pattern.search(s)\<close>: the groups of the leftmost match.\<close>

definition re_match :: "rx list \<Rightarrow> pystr \<Rightarrow> captures option" where
  "re_match r s = map_option fst (rmatch r s [])"

fun re_search :: "rx list \<Rightarrow> pystr \<Rightarrow> captures option" where
  "re_search r [] = re_match r []"
| "re_search r (x # xs) = (case re_match r (x # xs) of Some c \<Rightarrow> Some c | None \<Rightarrow> re_search r xs)"

text \<open>\<open>m.group(n)\<close>: \<open>None\<close> for a group that took no part in the match.\<close>

definition group :: "captures \<Rightarrow> string \<Rightarrow> pystr option" where
  "group c n = map_of c n"

definition lits :: "pystr \<Rightarrow> rx list" where
  "lits s = map Lit s"

section \<open>The Extractor: \<open>parse_chat\<close>\<close>

subsection \<open>The patterns\<close>

definition s_pet_search :: pystr where  \<comment> \<open>the header's fixed text, up to the full stop\<close>
  "s_pet_search = [54168, 53944, 32, 44160, 49353, 32, 44208, 44284, 32, 51077, 45768, 45796, 46]"
definition s_grade :: pystr where "s_grade = [46321, 44553]"
definition s_initial :: pystr where "s_initial = [52488, 44592]"
definition s_level :: pystr where "s_level = [47112, 48296]"
definition s_attack :: pystr where "s_attack = [44277, 44201, 47141]"
definition s_defense :: pystr where "s_defense = [48169, 50612, 47141]"
definition s_agility :: pystr where "s_agility = [49692, 48156, 47141]"
definition s_durability :: pystr where "s_durability = [45236, 44396, 47141]"
definition s_growth :: pystr where "s_growth = [49457, 51109]"
definition s_attribute :: pystr where "s_attribute = [49549, 49457]"
definition s_skill :: pystr where "s_skill = [44592, 49696]"
definition s_route :: pystr where "s_route = [44221, 47196]"

text \<open>The four elements \<open>[U+C9C0 U+C218 U+D654 U+D48D]\<close> (earth, water, fire, wind).\<close>

definition el_earth :: pystr where "el_earth = [51648]"
definition el_water :: pystr where "el_water = [49688]"
definition el_fire :: pystr where "el_fire = [54868]"
definition el_wind :: pystr where "el_wind = [54413]"

definition is_element :: "nat \<Rightarrow> bool" where
  "is_element c \<longleftrightarrow> c = 51648 \<or> c = 49688 \<or> c = 54868 \<or> c = 54413"

text \<open>The three grade labels: top (\<open>1\<close>), high (\<open>2\<close>), normal.\<close>

definition g_top :: pystr where "g_top = [52572, 49345, 44553]"
definition g_high :: pystr where "g_high = [49345, 44553]"
definition g_normal :: pystr where "g_normal = [51068, 48152]"

text \<open>
  \<^verbatim>\<open>^\[(?P<name>[^\]]+)\]\s*(?:\[(?P<grade>\d)GRADE\]\s*)?PET-SEARCH-RESULT\.\<close>
  (the Korean literals written here by name). The pattern starts with \<open>^\<close> and is compiled
  without \<open>re.MULTILINE\<close>, so \<open>HEADER_RE.search\<close> can only match at the start of the
  line: it is used with \<open>re_match\<close>.
\<close>

definition HEADER_RE :: "rx list" where
  "HEADER_RE =
     [Lit 91, Grp ''name'' [Plus (\<lambda>c. c \<noteq> 93)], Lit 93, Star is_space,
      Opt ([Lit 91, Grp ''grade'' [Cls is_digit]] @ lits s_grade @ [Lit 93, Star is_space])]
     @ lits s_pet_search"

text \<open>
  \<^verbatim>\<open>INITIAL\s*:\s*LEVEL\s*:?[\s\d]*,\s*ATTACK\s*(?P<atk>\d+),\s*DEFENSE\s*(?P<def>\d+),\<close>
  \<^verbatim>\<open>\s*AGILITY\s*(?P<agi>\d+),\s*DURABILITY\s*(?P<hp>\d+)\<close>
\<close>

definition INIT_RE :: "rx list" where
  "INIT_RE =
     lits s_initial @ [Star is_space, Lit 58, Star is_space] @
     lits s_level @ [Star is_space, Opt [Lit 58], Star (\<lambda>c. is_space c \<or> is_digit c), Lit 44,
       Star is_space] @
     lits s_attack @ [Star is_space, Grp ''atk'' [Plus is_digit], Lit 44, Star is_space] @
     lits s_defense @ [Star is_space, Grp ''def'' [Plus is_digit], Lit 44, Star is_space] @
     lits s_agility @ [Star is_space, Grp ''agi'' [Plus is_digit], Lit 44, Star is_space] @
     lits s_durability @ [Star is_space, Grp ''hp'' [Plus is_digit]]"

text \<open>The number \<^verbatim>\<open>\d+(?:\.\d+)?\<close> of the growth line.\<close>

definition number :: "rx list" where
  "number = [Plus is_digit, Opt [Lit 46, Plus is_digit]]"

text \<open>
  \<^verbatim>\<open>GROWTH\s*:\s*ATTACK\s*(?P<atk>N),\s*DEFENSE\s*(?P<def>N),\s*AGILITY\s*(?P<agi>N),\<close>
  \<^verbatim>\<open>\s*GROWTH\s*N,\s*DURABILITY\s*(?P<hp>N)\<close> with \<open>N\<close> the number above: the total
  growth, between \<open>agi\<close> and \<open>hp\<close>, is matched outside every group.
\<close>

definition GROW_RE :: "rx list" where
  "GROW_RE =
     lits s_growth @ [Star is_space, Lit 58, Star is_space] @
     lits s_attack @ [Star is_space, Grp ''atk'' number, Lit 44, Star is_space] @
     lits s_defense @ [Star is_space, Grp ''def'' number, Lit 44, Star is_space] @
     lits s_agility @ [Star is_space, Grp ''agi'' number, Lit 44, Star is_space] @
     lits s_growth @ [Star is_space] @ number @ [Lit 44, Star is_space] @
     lits s_durability @ [Star is_space, Grp ''hp'' number]"

text \<open>\<^verbatim>\<open>ATTRIBUTE\s*:\s*([^,]+)\<close>, \<^verbatim>\<open>([EARTH WATER FIRE WIND])\s*(\d+)\<close> and \<^verbatim>\<open>ROUTE\s*:\s*(.+)\<close>;
  \<open>.\<close> is every character but the line feed.\<close>

definition ATTR_SEG_RE :: "rx list" where
  "ATTR_SEG_RE = lits s_attribute @ [Star is_space, Lit 58, Star is_space, Grp ''1'' [Plus (\<lambda>c. c \<noteq> 44)]]"

definition ATTR_TOKEN_RE :: "rx list" where
  "ATTR_TOKEN_RE = [Grp ''1'' [Cls is_element], Star is_space, Grp ''2'' [Plus is_digit]]"

definition ROUTE_RE :: "rx list" where
  "ROUTE_RE = lits s_route @ [Star is_space, Lit 58, Star is_space, Grp ''1'' [Plus (\<lambda>c. c \<noteq> 10)]]"

subsection \<open>Conversions\<close>

text \<open>
  Sequencing of computations that may raise: the first error ends the computation.
\<close>

definition and_then :: "'e + 'a \<Rightarrow> ('a \<Rightarrow> 'e + 'b) \<Rightarrow> 'e + 'b" where
  "and_then x f = (case x of Inl e \<Rightarrow> Inl e | Inr a \<Rightarrow> f a)"

text \<open>
  \<open>int(m.group(...))\<close>, for the text of a group \<open>\d+\<close>: the digits are read in base ten by
  their Unicode values. CPython (3.11, with its default setting) refuses to convert a text
  of more than \<open>sys.int_info.default_max_str_digits = 4300\<close> digits (leading zeros count)
  and raises \<open>ValueError\<close>; nothing in the program changes the limit or catches the error,
  so it ends \<open>parse_chat\<close>. \<open>int(None)\<close> raises \<open>TypeError\<close>. A text that is not a run of digits
  never reaches the call (lemmas \<open>init_groups\<close>, \<open>token_groups\<close>); it is answered with
  \<open>ValueError\<close>, which \<open>int\<close> raises for what it cannot read.
\<close>

definition digits_value :: "pystr \<Rightarrow> nat" where
  "digits_value s = fold (\<lambda>c acc. acc * 10 + (case py_decimal c of None \<Rightarrow> 0 | Some v \<Rightarrow> v)) s 0"

definition is_digits :: "pystr \<Rightarrow> bool" where
  "is_digits s \<longleftrightarrow> s \<noteq> [] \<and> list_all is_digit s"

definition max_str_digits :: nat where
  "max_str_digits = 4300"

definition py_int :: "pystr option \<Rightarrow> py_error + int" where
  "py_int x =
     (case x of
        None \<Rightarrow> Inl TypeError
      | Some s \<Rightarrow>
          if is_digits s \<and> length s \<le> max_str_digits then Inr (int (digits_value s))
          else Inl ValueError)"

text \<open>
  \<open>float(m.group(...))\<close>, for the text of a group \<^verbatim>\<open>\d+(?:\.\d+)?\<close>: the decimal value of
  the digits before the point plus that of the digits behind it. \<open>float\<close> has no limit on
  the number of digits and raises nothing for such a text.
\<close>

definition py_float :: "pystr option \<Rightarrow> py_error + rat" where
  "py_float x =
     (case x of
        None \<Rightarrow> Inl TypeError
      | Some s \<Rightarrow>
          (let ip = takeWhile (\<lambda>c. c \<noteq> 46) s; fp = dropWhile (\<lambda>c. c \<noteq> 46) s in
           if is_digits ip \<and> fp = [] then Inr (of_nat (digits_value ip))
           else if is_digits ip \<and> is_digits (tl fp)
             then Inr (of_nat (digits_value ip) + of_nat (digits_value (tl fp)) / 10 ^ length (tl fp))
           else Inl ValueError))"

text \<open>The texts that the pattern \<open>number\<close> matches: digits, or digits, a point and digits.\<close>

definition is_number :: "pystr \<Rightarrow> bool" where
  "is_number s =
     (let ip = takeWhile (\<lambda>c. c \<noteq> 46) s; fp = dropWhile (\<lambda>c. c \<noteq> 46) s in
      is_digits ip \<and> (fp = [] \<or> is_digits (tl fp)))"

subsection \<open>The state of the scan and its steps\<close>

definition k_atk :: pystr where "k_atk = ascii ''atk''"
definition k_def :: pystr where "k_def = ascii ''def''"
definition k_agi :: pystr where "k_agi = ascii ''agi''"
definition k_hp :: pystr where "k_hp = ascii ''hp''"

text \<open>
  \<open>pets\<close> maps a name to its record, itself a \<open>dict\<close>. \<open>current\<close> is \<open>None\<close> or a
  reference to one of the records of \<open>pets\<close>, the one stored under the name of the last
  header; the state holds that name.
\<close>

record pstate =
  pets :: "(pystr \<times> pydict) list"
  current :: "pystr option"

text \<open>
  A statement that changes \<open>current\<close> changes the record \<open>pets[name]\<close> in place: the
  record is looked up, changed and stored back under its key, which keeps its position.
  The name held in \<open>current\<close> is always a key of \<open>pets\<close> (the invariant \<open>state_ok\<close>,
  lemma \<open>parse_lines_inv\<close>), so the first case is never taken.
\<close>

definition mutate :: "pystr \<Rightarrow> (pydict \<Rightarrow> py_error + pydict) \<Rightarrow> (pystr \<times> pydict) list \<Rightarrow>
    py_error + (pystr \<times> pydict) list" where
  "mutate name f ps =
     (case dict_get ps name of
        None \<Rightarrow> Inr ps
      | Some r \<Rightarrow> and_then (f r) (\<lambda>r'. Inr (dict_set ps name r')))"

definition grade_digit_to_str :: "pystr option \<Rightarrow> pystr" where
  "grade_digit_to_str d =
     (if d = Some [49] then g_top else if d = Some [50] then g_high else g_normal)"

text \<open>
  Lines 84-95, for a match \<open>m\<close> of \<open>HEADER_RE\<close>:
  \<^verbatim>\<open>
  name = m.group("name").strip()
  g_digit = m.group("grade")
  g_str = grade_digit_to_str(g_digit)
  if name not in pets:
      pets[name] = {"name": name}
  current = pets[name]
  if g_digit is not None or "grade" not in current:
      current["grade"] = g_str
  \<close>
\<close>

definition on_header :: "pstate \<Rightarrow> captures \<Rightarrow> py_error + pstate" where
  "on_header st m =
     (case group m ''name'' of
        None \<Rightarrow> Inl AttributeError
      | Some nm \<Rightarrow>
          (let name = strip nm;
               g_digit = group m ''grade'';
               g_str = grade_digit_to_str g_digit;
               pets1 = (if dict_has (pets st) name then pets st
                        else dict_set (pets st) name [(k_name, JStr name)])
           in and_then
                (mutate name
                   (\<lambda>r. Inr (if g_digit \<noteq> None \<or> \<not> dict_has r k_grade
                              then dict_set r k_grade (JStr g_str) else r))
                   pets1)
                (\<lambda>ps. Inr \<lparr>pets = ps, current = Some name\<rparr>)))"

text \<open>
  \<open>current.setdefault(key, {}).update(e)\<close>: the value under \<open>key\<close>, or a fresh \<open>{}\<close> stored
  there, is updated in place; a value without \<open>update\<close> raises \<open>AttributeError\<close>.
\<close>

definition setdefault_update :: "pydict \<Rightarrow> pystr \<Rightarrow> pydict \<Rightarrow> py_error + pydict" where
  "setdefault_update r key e =
     (case dict_get r key of
        None \<Rightarrow> Inr (dict_set r key (JDict (dict_update [] e)))
      | Some (JDict d) \<Rightarrow> Inr (dict_set r key (JDict (dict_update d e)))
      | Some _ \<Rightarrow> Inl AttributeError)"

text \<open>Lines 104-110, for a match \<open>m\<close> of \<open>INIT_RE\<close>, on the current record.\<close>

definition on_init :: "captures \<Rightarrow> pydict \<Rightarrow> py_error + pydict" where
  "on_init m r =
     and_then (py_int (group m ''atk'')) (\<lambda>a.
     and_then (py_int (group m ''def'')) (\<lambda>d.
     and_then (py_int (group m ''agi'')) (\<lambda>g.
     and_then (py_int (group m ''hp'')) (\<lambda>h.
       setdefault_update r k_s0
         [(k_atk, JInt a), (k_def, JInt d), (k_agi, JInt g), (k_hp, JInt h)]))))"

text \<open>Lines 116-122, for a match \<open>m\<close> of \<open>GROW_RE\<close>, on the current record.\<close>

definition on_grow :: "captures \<Rightarrow> pydict \<Rightarrow> py_error + pydict" where
  "on_grow m r =
     and_then (py_float (group m ''atk'')) (\<lambda>a.
     and_then (py_float (group m ''def'')) (\<lambda>d.
     and_then (py_float (group m ''agi'')) (\<lambda>g.
     and_then (py_float (group m ''hp'')) (\<lambda>h.
       setdefault_update r k_sg
         [(k_atk, JFloat a), (k_def, JFloat d), (k_agi, JFloat g), (k_hp, JFloat h)]))))"

text \<open>
  One round of the loop over \<open>seg.split()\<close> (lines 133-140). Both groups of
  \<open>ATTR_TOKEN_RE\<close> take part in every match (lemma \<open>token_groups\<close>), so \<open>el\<close> is a string.
\<close>

definition attr_token :: "(pystr \<times> int) list \<Rightarrow> pystr \<Rightarrow> py_error + (pystr \<times> int) list" where
  "attr_token attr tok0 =
     (let tok = strip tok0 in
      if tok = [] then Inr attr
      else
        (case re_match ATTR_TOKEN_RE tok of
           None \<Rightarrow> Inr attr
         | Some m \<Rightarrow>
             and_then (py_int (group m ''2'')) (\<lambda>v.
               (case group m ''1'' of None \<Rightarrow> Inr attr | Some el \<Rightarrow> Inr (dict_set attr el v)))))"

fun attr_tokens :: "(pystr \<times> int) list \<Rightarrow> pystr list \<Rightarrow> py_error + (pystr \<times> int) list" where
  "attr_tokens attr [] = Inr attr"
| "attr_tokens attr (tok # toks) = and_then (attr_token attr tok) (\<lambda>attr'. attr_tokens attr' toks)"

text \<open>
  Lines 128-140: the attribute block that a skill line describes; \<open>None\<close> when
  \<open>ATTR_SEG_RE\<close> finds no segment.
\<close>

definition parse_attr :: "pystr \<Rightarrow> (py_error + (pystr \<times> int) list) option" where
  "parse_attr line =
     (case re_search ATTR_SEG_RE line of
        None \<Rightarrow> None
      | Some m \<Rightarrow>
          Some (case group m ''1'' of
                  None \<Rightarrow> Inl AttributeError
                | Some seg \<Rightarrow>
                    attr_tokens [(el_earth, 0), (el_water, 0), (el_fire, 0), (el_wind, 0)]
                      (split seg)))"

text \<open>
  Lines 128-142 on the current record: the block is stored only
  \<open>if any(v > 0 for v in attr.values())\<close>.
\<close>

definition on_attr :: "pystr \<Rightarrow> pydict \<Rightarrow> py_error + pydict" where
  "on_attr line r =
     (case parse_attr line of
        None \<Rightarrow> Inr r
      | Some x \<Rightarrow>
          and_then x
            (\<lambda>attr.
               if list_ex (\<lambda>(k, v). v > 0) attr
               then Inr (dict_set r k_attr (JDict (map (\<lambda>(k, v). (k, JInt v)) attr)))
               else Inr r))"

text \<open>Lines 145-148: the route of a skill line, on the current record.\<close>

definition on_route :: "pystr \<Rightarrow> pydict \<Rightarrow> py_error + pydict" where
  "on_route line r =
     (case re_search ROUTE_RE line of
        None \<Rightarrow> Inr r
      | Some m \<Rightarrow>
          (case group m ''1'' of
             None \<Rightarrow> Inl AttributeError
           | Some t \<Rightarrow> Inr (dict_set r k_route (JStr (strip t)))))"

text \<open>
  Lines 101-148 on the current record: the first of the base-stat, growth-stat and skill
  branches whose test succeeds; a line that passes none of the tests changes nothing.
\<close>

definition on_field_line :: "pystr \<Rightarrow> pydict \<Rightarrow> py_error + pydict" where
  "on_field_line line r =
     (case re_search INIT_RE line of
        Some m \<Rightarrow> on_init m r
      | None \<Rightarrow>
          (case re_search GROW_RE line of
             Some m \<Rightarrow> on_grow m r
           | None \<Rightarrow>
               if contains s_skill line \<and> contains s_attribute line
               then and_then (on_attr line r) (on_route line)
               else Inr r))"

text \<open>The body of the loop over the lines (lines 77-148).\<close>

definition parse_line :: "pstate \<Rightarrow> pystr \<Rightarrow> py_error + pstate" where
  "parse_line st raw =
     (let line = strip raw in
      if line = [] then Inr st
      else
        (case re_match HEADER_RE line of
           Some m \<Rightarrow> on_header st m
         | None \<Rightarrow>
             (case current st of
                None \<Rightarrow> Inr st
              | Some name \<Rightarrow>
                  and_then (mutate name (on_field_line line) (pets st))
                    (\<lambda>ps. Inr (st\<lparr>pets := ps\<rparr>)))))"

fun parse_lines :: "pstate \<Rightarrow> pystr list \<Rightarrow> py_error + pstate" where
  "parse_lines st [] = Inr st"
| "parse_lines st (raw # rest) = and_then (parse_line st raw) (\<lambda>st'. parse_lines st' rest)"

text \<open>Before the first line: \<open>pets = {}\<close>, \<open>current = None\<close>.\<close>

definition init_state :: pstate where
  "init_state = \<lparr>pets = [], current = None\<rparr>"

definition parse_chat :: "pystr \<Rightarrow> py_error + (pystr \<times> pydict) list" where
  "parse_chat text =
     and_then (parse_lines init_state (splitlines text)) (\<lambda>st. Inr (pets st))"

subsection \<open>Invariants of the scan\<close>

text \<open>
  What holds of every record while the lines are read: it carries its own name, it has no
  field beyond the six, and each of its blocks \<open>s0\<close>, \<open>sg\<close>, \<open>attr\<close> is absent or a
  \<open>dict\<close> of exactly its four keys (with an \<open>attr\<close> block never all zero).
\<close>

definition record_ok :: "pystr \<Rightarrow> pydict \<Rightarrow> bool" where
  "record_ok n r \<longleftrightarrow>
     dict_get r k_name = Some (JStr n) \<and>
     set (map fst r) \<subseteq> {k_name, k_grade, k_s0, k_sg, k_attr, k_route} \<and>
     (dict_get r k_s0 = None \<or>
        (\<exists>a d g h. dict_get r k_s0 =
           Some (JDict [(k_atk, JInt a), (k_def, JInt d), (k_agi, JInt g), (k_hp, JInt h)]))) \<and>
     (dict_get r k_sg = None \<or>
        (\<exists>a d g h. dict_get r k_sg =
           Some (JDict [(k_atk, JFloat a), (k_def, JFloat d), (k_agi, JFloat g), (k_hp, JFloat h)]))) \<and>
     (dict_get r k_attr = None \<or>
        (\<exists>a b c d. 0 \<le> a \<and> 0 \<le> b \<and> 0 \<le> c \<and> 0 \<le> d \<and> (0 < a \<or> 0 < b \<or> 0 < c \<or> 0 < d) \<and>
           dict_get r k_attr =
             Some (JDict [(el_earth, JInt a), (el_water, JInt b), (el_fire, JInt c), (el_wind, JInt d)])))"

text \<open>
  What holds of the state: the names are distinct, every record is as above under its own
  name, and \<open>current\<close> refers to a record of \<open>pets\<close>.
\<close>

definition state_ok :: "pstate \<Rightarrow> bool" where
  "state_ok st \<longleftrightarrow>
     distinct (map fst (pets st)) \<and>
     (\<forall>n r. dict_get (pets st) n = Some r \<longrightarrow> record_ok n r) \<and>
     (\<forall>n. current st = Some n \<longrightarrow> dict_has (pets st) n)"

subsection \<open>Notions used to state the Extractor's properties\<close>

text \<open>
  A header line is a line whose stripped text is not empty and matches \<open>HEADER_RE\<close>;
  \<open>header_name\<close> is the name it announces, \<open>header_digit\<close> its grade digit (if any).
\<close>

definition header_name :: "pystr \<Rightarrow> pystr option" where
  "header_name raw =
     (if strip raw = [] then None
      else (case re_match HEADER_RE (strip raw) of
              None \<Rightarrow> None
            | Some m \<Rightarrow> map_option strip (group m ''name'')))"

definition header_digit :: "pystr \<Rightarrow> pystr option" where
  "header_digit raw =
     (case re_match HEADER_RE (strip raw) of None \<Rightarrow> None | Some m \<Rightarrow> group m ''grade'')"

text \<open>The grade that the record of a name holds, if the record exists and has one.\<close>

definition grade_of :: "pstate \<Rightarrow> pystr \<Rightarrow> json option" where
  "grade_of st name = (case dict_get (pets st) name of None \<Rightarrow> None | Some r \<Rightarrow> dict_get r k_grade)"

text \<open>
  A base-stat line and a growth-stat line: a non-empty line that is no header and on which
  \<open>INIT_RE\<close> matches, respectively on which \<open>INIT_RE\<close> fails and \<open>GROW_RE\<close> matches.
\<close>

definition is_init_line :: "pystr \<Rightarrow> bool" where
  "is_init_line raw \<longleftrightarrow>
     strip raw \<noteq> [] \<and> re_match HEADER_RE (strip raw) = None \<and> re_search INIT_RE (strip raw) \<noteq> None"

definition is_grow_line :: "pystr \<Rightarrow> bool" where
  "is_grow_line raw \<longleftrightarrow>
     strip raw \<noteq> [] \<and> re_match HEADER_RE (strip raw) = None \<and> re_search INIT_RE (strip raw) = None \<and>
     re_search GROW_RE (strip raw) \<noteq> None"

text \<open>
  A skill line: a non-empty line that is no header, on which neither \<open>INIT_RE\<close> nor
  \<open>GROW_RE\<close> matches, and that contains both words of the test in line 126.
\<close>

definition is_skill_line :: "pystr \<Rightarrow> bool" where
  "is_skill_line raw \<longleftrightarrow>
     strip raw \<noteq> [] \<and> re_match HEADER_RE (strip raw) = None \<and> re_search INIT_RE (strip raw) = None \<and>
     re_search GROW_RE (strip raw) = None \<and>
     contains s_skill (strip raw) \<and> contains s_attribute (strip raw)"

text \<open>
  A skill line whose attribute segment gives at least one positive value: the lines for
  which the test \<open>any(v > 0 for v in attr.values())\<close> of line 141 is reached and succeeds.
\<close>

definition positive_skill_line :: "pystr \<Rightarrow> bool" where
  "positive_skill_line raw \<longleftrightarrow>
     is_skill_line raw \<and>
     (case parse_attr (strip raw) of
        Some (Inr attr) \<Rightarrow> list_ex (\<lambda>(k, v). v > 0) attr
      | _ \<Rightarrow> False)"

text \<open>The value that the record of a name holds in a field, if the record exists and has it.\<close>

definition field_of :: "pstate \<Rightarrow> pystr \<Rightarrow> pystr \<Rightarrow> json option" where
  "field_of st name key = (case dict_get (pets st) name of None \<Rightarrow> None | Some r \<Rightarrow> dict_get r key)"

section \<open>Properties of the Merger\<close>

lemma ascii_simps:
  "k_name = [110, 97, 109, 101]"
  "k_grade = [103, 114, 97, 100, 101]"
  "k_s0 = [115, 48]"
  "k_sg = [115, 103]"
  "k_attr = [97, 116, 116, 114]"
  "k_route = [114, 111, 117, 116, 101]"
  by (simp_all add: k_name_def k_grade_def k_s0_def k_sg_def k_attr_def k_route_def ascii_def)

subsection \<open>Dictionaries and the index of names\<close>

lemma dict_get_set: "dict_get (dict_set d k v) k' = (if k' = k then Some v else dict_get d k')"
  by (induction d) (auto simp: dict_get_def)

lemma keys_dict_set:
  "map fst (dict_set d k v) = (if k \<in> set (map fst d) then map fst d else map fst d @ [k])"
  by (induction d) force+

lemma dict_get_merge_key: "k \<noteq> key \<Longrightarrow> dict_get (merge_key extra t key) k = dict_get t k"
  by (simp add: merge_key_def dict_get_set split: option.splits json.splits)

lemma dict_get_merge_fields: "k \<notin> set merge_keys \<Longrightarrow> dict_get (merge_fields t extra) k = dict_get t k"
  by (simp add: merge_fields_def merge_keys_def dict_get_merge_key)

lemma k_name_not_merge_key: "k_name \<notin> set merge_keys"
  by (simp add: merge_keys_def ascii_simps)

lemma named_str_name: "named n obj \<longleftrightarrow> str_name obj = Some n"
  by (simp add: named_def str_name_def split: json.splits option.splits)

lemma index_names_Cons:
  "index_names (obj # rest) i bn =
     (if unhashable_name obj then Inl TypeError
      else index_names rest (Suc i) (case str_name obj of None \<Rightarrow> bn | Some n \<Rightarrow> dict_set bn n i))"
  by (simp add: unhashable_name_def str_name_def split: json.splits option.splits)

lemma index_names_error:
  "index_names xs i bn = Inl e \<Longrightarrow> e = TypeError \<and> (\<exists>obj\<in>set xs. unhashable_name obj)"
proof (induction xs arbitrary: i bn)
  case Nil
  then show ?case by simp
next
  case (Cons obj rest)
  then show ?case
    by (cases "unhashable_name obj") (auto simp: index_names_Cons simp del: index_names.simps)
qed

lemma index_names_ok:
  "\<forall>obj\<in>set xs. \<not> unhashable_name obj \<Longrightarrow> \<exists>bn'. index_names xs i bn = Inr bn'"
proof (induction xs arbitrary: i bn)
  case Nil
  then show ?case by simp
next
  case (Cons obj rest)
  then show ?case
    by (simp add: index_names_Cons del: index_names.simps)
qed

lemma index_names_unhashable:
  "obj \<in> set xs \<Longrightarrow> unhashable_name obj \<Longrightarrow> index_names xs i bn = Inl TypeError"
proof (induction xs arbitrary: i bn)
  case Nil
  then show ?case by simp
next
  case (Cons x rest)
  show ?case
  proof (cases "unhashable_name x")
    case True
    then show ?thesis by (simp add: index_names_Cons del: index_names.simps)
  next
    case False
    with Cons.prems have "obj \<in> set rest" by auto
    from Cons.IH[OF this Cons.prems(2)] False show ?thesis
      by (simp add: index_names_Cons del: index_names.simps)
  qed
qed

lemma index_names_None:
  "index_names xs i bn = Inr bn' \<Longrightarrow>
   dict_get bn' n = None \<longleftrightarrow> dict_get bn n = None \<and> (\<forall>obj\<in>set xs. \<not> named n obj)"
proof (induction xs arbitrary: i bn)
  case Nil
  then show ?case by simp
next
  case (Cons obj rest)
  from Cons.prems have nu: "\<not> unhashable_name obj"
    by (auto simp: index_names_Cons simp del: index_names.simps split: if_splits)
  with Cons.prems have rec:
    "index_names rest (Suc i) (case str_name obj of None \<Rightarrow> bn | Some m \<Rightarrow> dict_set bn m i) = Inr bn'"
    by (simp add: index_names_Cons del: index_names.simps)
  show ?case
    unfolding Cons.IH[OF rec]
    by (cases "str_name obj") (auto simp: named_str_name dict_get_set)
qed

lemma index_names_Some:
  "index_names xs i bn = Inr bn' \<Longrightarrow> dict_get bn' n = Some k \<Longrightarrow>
   (dict_get bn n = Some k \<and> (\<forall>obj\<in>set xs. \<not> named n obj)) \<or>
   (i \<le> k \<and> k - i < length xs \<and> named n (xs ! (k - i)) \<and>
      (\<forall>j. k - i < j \<and> j < length xs \<longrightarrow> \<not> named n (xs ! j)))"
proof (induction xs arbitrary: i bn)
  case Nil
  then show ?case by simp
next
  case (Cons obj rest)
  let ?bn1 = "case str_name obj of None \<Rightarrow> bn | Some m \<Rightarrow> dict_set bn m i"
  from Cons.prems have nu: "\<not> unhashable_name obj"
    by (auto simp: index_names_Cons simp del: index_names.simps split: if_splits)
  with Cons.prems have rec: "index_names rest (Suc i) ?bn1 = Inr bn'"
    by (simp add: index_names_Cons del: index_names.simps)
  from Cons.IH[OF rec Cons.prems(2)] show ?case
  proof
    assume a: "dict_get ?bn1 n = Some k \<and> (\<forall>obj\<in>set rest. \<not> named n obj)"
    show ?thesis
    proof (cases "named n obj")
      case True
      with a have "k = i" by (simp add: named_str_name dict_get_set)
      moreover from a have "\<forall>j. 0 < j \<and> j < length (obj # rest) \<longrightarrow> \<not> named n ((obj # rest) ! j)"
        by (auto simp: nth_Cons split: nat.splits)
      ultimately show ?thesis using True by simp
    next
      case False
      with a have "dict_get bn n = Some k"
        by (cases "str_name obj") (auto simp: named_str_name dict_get_set split: if_splits)
      with a False show ?thesis by simp
    qed
  next
    assume a: "Suc i \<le> k \<and> k - Suc i < length rest \<and> named n (rest ! (k - Suc i)) \<and>
      (\<forall>j. k - Suc i < j \<and> j < length rest \<longrightarrow> \<not> named n (rest ! j))"
    then have e: "k - i = Suc (k - Suc i)" by arith
    have "\<forall>j. k - i < j \<and> j < length (obj # rest) \<longrightarrow> \<not> named n ((obj # rest) ! j)"
    proof (intro allI impI)
      fix j assume j: "k - i < j \<and> j < length (obj # rest)"
      then obtain j' where j': "j = Suc j'" by (cases j) auto
      with j e a show "\<not> named n ((obj # rest) ! j)" by simp
    qed
    with a e show ?thesis by simp
  qed
qed

lemma length_merge_at: "length (merge_at xs i e) = length xs"
  by (induction xs i e rule: merge_at.induct) (auto split: json.splits)

lemma nth_merge_at_other: "j \<noteq> i \<Longrightarrow> merge_at xs i e ! j = xs ! j"
  by (induction xs i e arbitrary: j rule: merge_at.induct) (auto simp: nth_Cons split: json.splits nat.splits)

lemma nth_merge_at_same:
  "i < length xs \<Longrightarrow> merge_at xs i e ! i = (case xs ! i of JDict t \<Rightarrow> JDict (merge_fields t e) | x \<Rightarrow> x)"
  by (induction xs i e rule: merge_at.induct) (auto split: json.splits)

lemma merge_at_append: "i < length xs \<Longrightarrow> merge_at (xs @ ys) i e = merge_at xs i e @ ys"
  by (induction xs i e rule: merge_at.induct) (auto split: json.splits)

subsection \<open>What one patch entry changes\<close>

lemma merge_dict_entry_other:
  "fst entry \<noteq> n \<Longrightarrow> dict_get (merge_dict_entry d entry) n = dict_get d n"
  by (cases entry) (simp add: merge_dict_entry_def dict_get_set split: option.splits json.splits)

lemma merge_dict_entry_skip:
  "dict_get d n = Some v \<Longrightarrow> v \<noteq> JNull \<Longrightarrow> \<forall>t. v \<noteq> JDict t \<Longrightarrow> merge_dict_entry d (n, extra) = d"
  by (simp add: merge_dict_entry_def split: json.splits)

lemma fold_dict_skip:
  "dict_get d n = Some v \<Longrightarrow> v \<noteq> JNull \<Longrightarrow> \<forall>t. v \<noteq> JDict t \<Longrightarrow>
   fold (\<lambda>entry acc. merge_dict_entry acc entry) p d =
     fold (\<lambda>entry acc. merge_dict_entry acc entry) (filter (\<lambda>entry. fst entry \<noteq> n) p) d \<and>
   dict_get (fold (\<lambda>entry acc. merge_dict_entry acc entry) p d) n = Some v"
proof (induction p arbitrary: d)
  case Nil
  then show ?case by simp
next
  case (Cons entry p)
  let ?f = "\<lambda>entry acc. merge_dict_entry acc entry"
  show ?case
  proof (cases "fst entry = n")
    case True
    have m: "merge_dict_entry d entry = d"
      using True Cons.prems merge_dict_entry_skip[of d n v "snd entry"] by (cases entry) simp
    have s1: "fold ?f (entry # p) d = fold ?f p d" using m by simp
    have s2: "filter (\<lambda>entry. fst entry \<noteq> n) (entry # p) = filter (\<lambda>entry. fst entry \<noteq> n) p"
      using True by simp
    show ?thesis unfolding s1 s2 by (rule Cons.IH[OF Cons.prems])
  next
    case False
    have g: "dict_get (merge_dict_entry d entry) n = Some v"
      using False Cons.prems(1) by (simp add: merge_dict_entry_other)
    have s1: "fold ?f (entry # p) d = fold ?f p (merge_dict_entry d entry)" by simp
    have s2: "fold ?f (filter (\<lambda>entry. fst entry \<noteq> n) (entry # p)) d
              = fold ?f (filter (\<lambda>entry. fst entry \<noteq> n) p) (merge_dict_entry d entry)"
      using False by simp
    show ?thesis unfolding s1 s2 by (rule Cons.IH[OF g Cons.prems(2,3)])
  qed
qed

lemma merge_dict_entry_frame:
  "dict_get d n = Some (JDict t) \<Longrightarrow>
   \<exists>t'. dict_get (merge_dict_entry d entry) n = Some (JDict t') \<and>
        (\<forall>k. k \<notin> set merge_keys \<longrightarrow> dict_get t' k = dict_get t k)"
proof (cases "fst entry = n")
  case True
  assume "dict_get d n = Some (JDict t)"
  with True show ?thesis
    by (cases entry) (simp add: merge_dict_entry_def dict_get_set dict_get_merge_fields)
next
  case False
  assume "dict_get d n = Some (JDict t)"
  with False show ?thesis by (simp add: merge_dict_entry_other)
qed

lemma fold_dict_frame:
  "dict_get d n = Some (JDict t) \<Longrightarrow>
   \<exists>t'. dict_get (fold (\<lambda>entry acc. merge_dict_entry acc entry) p d) n = Some (JDict t') \<and>
        (\<forall>k. k \<notin> set merge_keys \<longrightarrow> dict_get t' k = dict_get t k)"
proof (induction p arbitrary: d t)
  case Nil
  then show ?case by simp
next
  case (Cons entry p)
  from merge_dict_entry_frame[OF Cons.prems, of entry] obtain t1 where
    t1: "dict_get (merge_dict_entry d entry) n = Some (JDict t1)"
        "\<forall>k. k \<notin> set merge_keys \<longrightarrow> dict_get t1 k = dict_get t k" by blast
  from Cons.IH[OF t1(1)] obtain t2 where
    t2: "dict_get (fold (\<lambda>entry acc. merge_dict_entry acc entry) p (merge_dict_entry d entry)) n = Some (JDict t2)"
        "\<forall>k. k \<notin> set merge_keys \<longrightarrow> dict_get t2 k = dict_get t1 k" by blast
  from t2(2) t1(2) have "\<forall>k. k \<notin> set merge_keys \<longrightarrow> dict_get t2 k = dict_get t k" by simp
  with t2(1) show ?case by simp
qed

lemma length_merge_list_entry: "length xs \<le> length (merge_list_entry bn xs entry)"
  by (cases entry) (simp add: merge_list_entry_def length_merge_at split: option.splits)

lemma merge_list_entry_frame:
  assumes "i < length xs" "xs ! i = JDict t"
  shows "\<exists>t'. merge_list_entry bn xs entry ! i = JDict t' \<and>
        (\<forall>k. k \<notin> set merge_keys \<longrightarrow> dict_get t' k = dict_get t k)"
proof (cases entry)
  case (Pair name extra)
  show ?thesis
  proof (cases "dict_get bn name")
    case None
    with Pair assms show ?thesis by (simp add: merge_list_entry_def nth_append)
  next
    case (Some j)
    show ?thesis
    proof (cases "j = i")
      case True
      with Some Pair assms show ?thesis
        by (simp add: merge_list_entry_def nth_merge_at_same dict_get_merge_fields)
    next
      case False
      then have "merge_at xs j extra ! i = xs ! i" by (simp add: nth_merge_at_other)
      with Some Pair assms show ?thesis by (simp add: merge_list_entry_def)
    qed
  qed
qed

lemma fold_list_length:
  "length xs \<le> length (fold (\<lambda>entry acc. merge_list_entry bn acc entry) p xs)"
proof (induction p arbitrary: xs)
  case Nil
  then show ?case by simp
next
  case (Cons entry p)
  have "length xs \<le> length (merge_list_entry bn xs entry)" by (rule length_merge_list_entry)
  also have "\<dots> \<le> length (fold (\<lambda>entry acc. merge_list_entry bn acc entry) p (merge_list_entry bn xs entry))"
    by (rule Cons.IH)
  finally show ?case by simp
qed

lemma fold_list_frame:
  "i < length xs \<Longrightarrow> xs ! i = JDict t \<Longrightarrow>
   \<exists>t'. fold (\<lambda>entry acc. merge_list_entry bn acc entry) p xs ! i = JDict t' \<and>
        (\<forall>k. k \<notin> set merge_keys \<longrightarrow> dict_get t' k = dict_get t k)"
proof (induction p arbitrary: xs t)
  case Nil
  then show ?case by simp
next
  case (Cons entry p)
  from merge_list_entry_frame[OF Cons.prems, of bn entry] obtain t1 where
    t1: "merge_list_entry bn xs entry ! i = JDict t1"
        "\<forall>k. k \<notin> set merge_keys \<longrightarrow> dict_get t1 k = dict_get t k" by blast
  have "i < length (merge_list_entry bn xs entry)"
    using Cons.prems(1) length_merge_list_entry[of xs bn entry] by simp
  from Cons.IH[OF this t1(1)] obtain t2 where
    t2: "fold (\<lambda>entry acc. merge_list_entry bn acc entry) p (merge_list_entry bn xs entry) ! i = JDict t2"
        "\<forall>k. k \<notin> set merge_keys \<longrightarrow> dict_get t2 k = dict_get t1 k" by blast
  from t2(2) t1(2) have "\<forall>k. k \<notin> set merge_keys \<longrightarrow> dict_get t2 k = dict_get t k" by simp
  with t2(1) show ?case by simp
qed

lemma index_names_bound:
  assumes "index_names xs 0 [] = Inr bn" "dict_get bn n = Some k"
  shows "k < length xs \<and> named n (xs ! k) \<and> (\<forall>j. k < j \<and> j < length xs \<longrightarrow> \<not> named n (xs ! j))"
  using index_names_Some[OF assms] by (simp add: dict_get_def)

lemma named_inj: "named n obj \<Longrightarrow> named m obj \<Longrightarrow> n = m"
  by (simp add: named_str_name)

lemma index_names_last:
  assumes bn: "index_names xs 0 [] = Inr bn"
    and i: "i < length xs" "named n (xs ! i)" "\<forall>j. i < j \<and> j < length xs \<longrightarrow> \<not> named n (xs ! j)"
  shows "dict_get bn n = Some i"
proof -
  have "dict_get bn n \<noteq> None"
    using index_names_None[OF bn, of n] i(1,2) nth_mem by blast
  then obtain k where k: "dict_get bn n = Some k" by blast
  from index_names_bound[OF bn k] have
    kk: "k < length xs" "named n (xs ! k)" "\<forall>j. k < j \<and> j < length xs \<longrightarrow> \<not> named n (xs ! j)"
    by simp_all
  have "\<not> k < i" using kk(3) i(1,2) by blast
  moreover have "\<not> i < k" using i(3) kk(1,2) by blast
  ultimately have "k = i" by arith
  with k show ?thesis by simp
qed

lemma fold_known_length:
  "length (fold (\<lambda>entry acc. merge_list_entry bn acc entry) [e\<leftarrow>p. dict_get bn (fst e) \<noteq> None] xs) = length xs"
proof (induction p arbitrary: xs)
  case Nil
  then show ?case by simp
next
  case (Cons entry p)
  show ?case
  proof (cases "dict_get bn (fst entry)")
    case None
    then show ?thesis using Cons.IH by simp
  next
    case (Some k)
    then have "merge_list_entry bn xs entry = merge_at xs k (snd entry)"
      by (cases entry) (simp add: merge_list_entry_def)
    with Some show ?thesis using Cons.IH[of "merge_at xs k (snd entry)"]
      by (simp add: length_merge_at)
  qed
qed

lemma fold_list_split:
  assumes "\<forall>n k. dict_get bn n = Some k \<longrightarrow> k < length xs"
  shows "fold (\<lambda>entry acc. merge_list_entry bn acc entry) p (xs @ ys) =
         fold (\<lambda>entry acc. merge_list_entry bn acc entry) [e\<leftarrow>p. dict_get bn (fst e) \<noteq> None] xs @ ys @
         map (\<lambda>e. JDict (new_obj (fst e) (snd e))) [e\<leftarrow>p. dict_get bn (fst e) = None]"
  using assms
proof (induction p arbitrary: xs ys)
  case Nil
  then show ?case by simp
next
  case (Cons entry p)
  show ?case
  proof (cases "dict_get bn (fst entry)")
    case None
    then have step: "merge_list_entry bn (xs @ ys) entry = xs @ (ys @ [JDict (new_obj (fst entry) (snd entry))])"
      by (cases entry) (simp add: merge_list_entry_def)
    show ?thesis
      using None Cons.IH[OF Cons.prems, of "ys @ [JDict (new_obj (fst entry) (snd entry))]"]
      by (simp add: step del: append_assoc)
  next
    case (Some k)
    with Cons.prems have k: "k < length xs" by blast
    have step: "merge_list_entry bn (xs @ ys) entry = merge_at xs k (snd entry) @ ys"
      using Some k by (cases entry) (simp add: merge_list_entry_def merge_at_append)
    have step': "merge_list_entry bn xs entry = merge_at xs k (snd entry)"
      using Some by (cases entry) (simp add: merge_list_entry_def)
    have "\<forall>n k'. dict_get bn n = Some k' \<longrightarrow> k' < length (merge_at xs k (snd entry))"
      using Cons.prems by (simp add: length_merge_at)
    from Cons.IH[OF this, of ys] show ?thesis
      using Some by (simp add: step step')
  qed
qed

lemma fold_list_nondict:
  "i < length xs \<Longrightarrow> \<forall>t. xs ! i \<noteq> JDict t \<Longrightarrow>
   fold (\<lambda>entry acc. merge_list_entry bn acc entry) p xs ! i = xs ! i"
proof (induction p arbitrary: xs)
  case Nil
  then show ?case by simp
next
  case (Cons entry p)
  have same: "merge_list_entry bn xs entry ! i = xs ! i"
  proof (cases "dict_get bn (fst entry)")
    case None
    then show ?thesis using Cons.prems(1)
      by (cases entry) (simp add: merge_list_entry_def nth_append)
  next
    case (Some k)
    show ?thesis
    proof (cases "k = i")
      case True
      with Some Cons.prems show ?thesis
        by (cases entry) (simp add: merge_list_entry_def nth_merge_at_same split: json.splits)
    next
      case False
      with Some show ?thesis
        by (cases entry) (simp add: merge_list_entry_def nth_merge_at_other)
    qed
  qed
  have len: "i < length (merge_list_entry bn xs entry)"
    using Cons.prems(1) length_merge_list_entry[of xs bn entry] by simp
  have "fold (\<lambda>entry acc. merge_list_entry bn acc entry) p (merge_list_entry bn xs entry) ! i
        = merge_list_entry bn xs entry ! i"
    using Cons.prems(2) same by (intro Cons.IH[OF len]) simp
  with same show ?case by simp
qed

lemma fold_list_untouched:
  "j < length xs \<Longrightarrow> \<forall>entry\<in>set p. dict_get bn (fst entry) \<noteq> Some j \<Longrightarrow>
   fold (\<lambda>entry acc. merge_list_entry bn acc entry) p xs ! j = xs ! j"
proof (induction p arbitrary: xs)
  case Nil
  then show ?case by simp
next
  case (Cons entry p)
  have same: "merge_list_entry bn xs entry ! j = xs ! j"
  proof (cases "dict_get bn (fst entry)")
    case None
    then show ?thesis using Cons.prems(1)
      by (cases entry) (simp add: merge_list_entry_def nth_append)
  next
    case (Some k)
    with Cons.prems(2) have "k \<noteq> j" by auto
    with Some show ?thesis
      by (cases entry) (simp add: merge_list_entry_def nth_merge_at_other)
  qed
  have len: "j < length (merge_list_entry bn xs entry)"
    using Cons.prems(1) length_merge_list_entry[of xs bn entry] by simp
  have "fold (\<lambda>entry acc. merge_list_entry bn acc entry) p (merge_list_entry bn xs entry) ! j
        = merge_list_entry bn xs entry ! j"
    using Cons.prems(2) by (intro Cons.IH[OF len]) simp
  with same show ?case by simp
qed

lemma fold_list_target:
  assumes "distinct (map fst p)" "(n, e) \<in> set p" "dict_get bn n = Some i" "i < length xs"
    "\<forall>entry\<in>set p. fst entry \<noteq> n \<longrightarrow> dict_get bn (fst entry) \<noteq> Some i" "xs ! i = JDict t"
  shows "fold (\<lambda>entry acc. merge_list_entry bn acc entry) p xs ! i = JDict (merge_fields t e)"
  using assms
proof (induction p arbitrary: xs)
  case Nil
  then show ?case by simp
next
  case (Cons entry p)
  have len: "i < length (merge_list_entry bn xs entry)"
    using Cons.prems(4) length_merge_list_entry[of xs bn entry] by simp
  show ?case
  proof (cases "entry = (n, e)")
    case True
    then have step: "merge_list_entry bn xs entry ! i = JDict (merge_fields t e)"
      using Cons.prems(3,4,6) by (simp add: merge_list_entry_def nth_merge_at_same)
    have "n \<notin> fst ` set p" using Cons.prems(1) True by simp
    have "\<forall>entry\<in>set p. dict_get bn (fst entry) \<noteq> Some i"
    proof
      fix x assume x: "x \<in> set p"
      with \<open>n \<notin> fst ` set p\<close> have "fst x \<noteq> n" by blast
      with x Cons.prems(5) show "dict_get bn (fst x) \<noteq> Some i" by simp
    qed
    from fold_list_untouched[OF len this] step show ?thesis by simp
  next
    case False
    have ne: "fst entry \<noteq> n"
    proof
      assume "fst entry = n"
      moreover from False Cons.prems(2) have "(n, e) \<in> set p" by auto
      then have "n \<in> fst ` set p" by force
      ultimately show False using Cons.prems(1) by simp
    qed
    then have "dict_get bn (fst entry) \<noteq> Some i" using Cons.prems(5) by simp
    then have same: "merge_list_entry bn xs entry ! i = JDict t"
      using Cons.prems(4,6)
      by (cases entry; cases "dict_get bn (fst entry)")
         (simp_all add: merge_list_entry_def nth_append nth_merge_at_other)
    have "fold (\<lambda>entry acc. merge_list_entry bn acc entry) p (merge_list_entry bn xs entry) ! i
          = JDict (merge_fields t e)"
      using Cons.prems False by (intro Cons.IH[OF _ _ _ len _ same]) auto
    then show ?thesis by simp
  qed
qed

lemma named_new_obj: "named n (JDict (new_obj m e)) \<longleftrightarrow> n = m"
proof -
  have "\<And>obj. dict_get (fold (\<lambda>key obj. case dict_get e key of None \<Rightarrow> obj | Some v \<Rightarrow> dict_set obj key v) merge_keys obj) k_name
        = dict_get obj k_name"
    by (simp add: merge_keys_def dict_get_set ascii_simps split: option.splits)
  then have "dict_get (new_obj m e) k_name = Some (JStr m)"
    by (simp add: new_obj_def dict_get_def)
  then show ?thesis by (auto simp: named_def)
qed

subsection \<open>What merging the fields of a record gives\<close>

lemma merge_key_get:
  "dict_get (merge_key extra t k) k =
     (case dict_get extra k of
        None \<Rightarrow> dict_get t k
      | Some v \<Rightarrow>
          (case v of
             JDict e \<Rightarrow> (case dict_get t k of
                           Some (JDict d) \<Rightarrow> Some (JDict (dict_update d e))
                         | _ \<Rightarrow> Some v)
           | _ \<Rightarrow> Some v))"
  by (simp add: merge_key_def dict_get_set split: option.splits json.splits)

lemma fold_merge_key_get:
  "distinct ks \<Longrightarrow>
   dict_get (fold (\<lambda>key t. merge_key extra t key) ks t) k =
     (if k \<in> set ks then dict_get (merge_key extra t k) k else dict_get t k)"
proof (induction ks arbitrary: t)
  case Nil
  then show ?case by simp
next
  case (Cons key ks)
  from Cons.prems have d: "distinct ks" and nk: "key \<notin> set ks" by simp_all
  note IH = Cons.IH[OF d, of "merge_key extra t key"]
  show ?case
  proof (cases "k = key")
    case True
    with nk IH show ?thesis by simp
  next
    case False
    then have same: "dict_get (merge_key extra t key) k = dict_get t k"
      by (rule dict_get_merge_key)
    have "dict_get (merge_key extra (merge_key extra t key) k) k = dict_get (merge_key extra t k) k"
      by (simp only: merge_key_get same)
    with IH same False show ?thesis by simp
  qed
qed

lemma merge_fields_key:
  assumes "k \<in> set merge_keys"
  shows "dict_get (merge_fields t extra) k =
     (case dict_get extra k of
        None \<Rightarrow> dict_get t k
      | Some v \<Rightarrow>
          (case v of
             JDict e \<Rightarrow> (case dict_get t k of
                           Some (JDict d) \<Rightarrow> Some (JDict (dict_update d e))
                         | _ \<Rightarrow> Some v)
           | _ \<Rightarrow> Some v))"
proof -
  have "distinct merge_keys" by (simp add: merge_keys_def ascii_simps)
  from fold_merge_key_get[OF this, of extra t k] assms show ?thesis
    by (simp add: merge_fields_def merge_key_get)
qed

lemma merge_fields_empty:
  "dict_get (merge_fields [] extra) k = (if k \<in> set merge_keys then dict_get extra k else None)"
proof (cases "k \<in> set merge_keys")
  case True
  have e: "dict_get ([] :: pydict) k = None" by (simp add: dict_get_def)
  from merge_fields_key[OF True, of "[]" extra] True show ?thesis
    by (simp add: e split: option.splits json.splits)
next
  case False
  with dict_get_merge_fields[OF False, of "[]" extra] show ?thesis by (simp add: dict_get_def)
qed

lemma fold_dict_other:
  "\<forall>e\<in>set p. fst e \<noteq> n \<Longrightarrow>
   dict_get (fold (\<lambda>entry acc. merge_dict_entry acc entry) p d) n = dict_get d n"
proof (induction p arbitrary: d)
  case Nil
  then show ?case by simp
next
  case (Cons e p)
  then have "fst e \<noteq> n" "\<forall>e\<in>set p. fst e \<noteq> n" by simp_all
  from Cons.IH[OF this(2), of "merge_dict_entry d e"] merge_dict_entry_other[OF this(1), of d]
  show ?case by simp
qed

lemma fold_dict_null:
  assumes "dict_get d n = Some JNull" "distinct (map fst patch)" "(n, extra) \<in> set patch"
  shows "dict_get (fold (\<lambda>entry acc. merge_dict_entry acc entry) patch d) n
           = Some (JDict (merge_fields [] extra))"
proof -
  let ?f = "\<lambda>entry acc. merge_dict_entry acc entry"
  from assms(3) obtain p1 p2 where p: "patch = p1 @ (n, extra) # p2" by (auto dest: split_list)
  with assms(2) have n1: "\<forall>e\<in>set p1. fst e \<noteq> n" and n2: "\<forall>e\<in>set p2. fst e \<noteq> n" by auto
  let ?d1 = "fold ?f p1 d"
  have g1: "dict_get ?d1 n = Some JNull" using fold_dict_other[OF n1, of d] assms(1) by simp
  then have "merge_dict_entry ?d1 (n, extra) = dict_set ?d1 n (JDict (merge_fields [] extra))"
    by (simp add: merge_dict_entry_def)
  then have g2: "dict_get (merge_dict_entry ?d1 (n, extra)) n = Some (JDict (merge_fields [] extra))"
    by (simp add: dict_get_set)
  have "fold ?f patch d = fold ?f p2 (merge_dict_entry ?d1 (n, extra))" by (simp add: p)
  with fold_dict_other[OF n2, of "merge_dict_entry ?d1 (n, extra)"] g2 show ?thesis by simp
qed

lemmas merge_eval = merge_into_pets_def merge_dict_entry_def merge_list_entry_def merge_fields_def
  merge_key_def merge_keys_def new_obj_def dict_get_def dict_update_def ascii_simps ascii_def
  named_def unhashable_name_def

lemma value_error_iff:
  "merge_into_pets data patch = Inl ValueError \<longleftrightarrow> \<not> is_dict data \<and> \<not> is_list data"
proof (cases data)
  case (JList xs)
  then show ?thesis
    using index_names_error[of xs 0 "[]"]
    by (auto simp: merge_into_pets_def is_dict_def is_list_def split: sum.splits)
qed (simp_all add: merge_into_pets_def is_dict_def is_list_def)

lemma merge_returns_iff:
  "(\<exists>out. merge_into_pets data patch = Inr out) \<longleftrightarrow>
   is_dict data \<or> (\<exists>xs. data = JList xs \<and> (\<forall>obj\<in>set xs. \<not> unhashable_name obj))"
proof (cases data)
  case (JList xs)
  show ?thesis
  proof (cases "\<exists>obj\<in>set xs. unhashable_name obj")
    case True
    then obtain obj where "obj \<in> set xs" "unhashable_name obj" by blast
    then have "index_names xs 0 [] = Inl TypeError" by (rule index_names_unhashable)
    with True JList show ?thesis by (simp add: merge_into_pets_def is_dict_def)
  next
    case False
    then obtain bn where "index_names xs 0 [] = Inr bn" using index_names_ok[of xs 0 "[]"] by blast
    with False JList show ?thesis by (simp add: merge_into_pets_def is_dict_def)
  qed
qed (simp_all add: merge_into_pets_def is_dict_def)

subsection \<open>The claims about the Merger\<close>

text \<open>
  C3. The claim says that, for every dataset, merging into a sequence returns a sequence
  with the old objects in place and the new ones appended. For the sequence
  \<open>[{"name": "a"}, {"name": []}]\<close> the store \<open>by_name[obj["name"]] = obj\<close> of line 185
  raises \<open>TypeError\<close> (a list is unhashable) before any entry of the patch is applied, so no
  sequence is returned, although the function's docstring promises a list for a list.
  The store is not guarded against a name that is a list or a mapping. The theorem
  evaluates the Merger at that input.
\<close>

theorem sequence_not_returned:
  "merge_into_pets (JList [JDict [(k_name, JStr (ascii ''a''))], JDict [(k_name, JList [])]])
       [(ascii ''a'', [(k_name, JStr (ascii ''a'')), (k_route, JStr (ascii ''r''))]),
        (ascii ''b'', [(k_name, JStr (ascii ''b''))])]
     = Inl TypeError"
  by (simp add: merge_eval)

text \<open>
  Apart from that defect the Merger keeps the shape: merging into a keyed mapping returns a
  mapping. Merging into a sequence whose objects have hashable names returns a sequence
  that starts with the objects of the dataset, each at its original position (an object
  that is not a mapping unchanged, a mapping with its name unchanged), followed by one new
  object for every patch name that no object of the dataset carries, in the order of the
  patch. Whenever the Merger returns, the shape of the result is the shape of the dataset.
\<close>

lemma merge_keeps_shape:
  "(\<exists>d'. merge_into_pets (JDict d) patch = Inr (JDict d')) \<and>
   ((\<forall>obj\<in>set xs. \<not> unhashable_name obj) \<longrightarrow>
      (\<exists>kept. merge_into_pets (JList xs) patch =
          Inr (JList (kept @ map (\<lambda>entry. JDict (new_obj (fst entry) (snd entry)))
                               [entry\<leftarrow>patch. \<forall>obj\<in>set xs. \<not> named (fst entry) obj])) \<and>
        length kept = length xs \<and>
        (\<forall>j<length xs.
           (\<forall>t. xs ! j = JDict t \<longrightarrow>
              (\<exists>t'. kept ! j = JDict t' \<and> dict_get t' k_name = dict_get t k_name)) \<and>
           ((\<forall>t. xs ! j \<noteq> JDict t) \<longrightarrow> kept ! j = xs ! j)))) \<and>
   (\<forall>out. merge_into_pets data patch = Inr out \<longrightarrow>
      (is_dict data \<and> is_dict out) \<or> (is_list data \<and> is_list out))"
proof (intro conjI impI allI)
  show "\<exists>d'. merge_into_pets (JDict d) patch = Inr (JDict d')"
    by (simp add: merge_into_pets_def)
next
  fix out assume "merge_into_pets data patch = Inr out"
  then show "(is_dict data \<and> is_dict out) \<or> (is_list data \<and> is_list out)"
    by (cases data) (auto simp: merge_into_pets_def is_dict_def is_list_def split: sum.splits)
next
  assume h: "\<forall>obj\<in>set xs. \<not> unhashable_name obj"
  let ?F = "\<lambda>entry acc. merge_list_entry bn acc entry"
  from index_names_ok[OF h, of 0 "[]"] obtain bn where bn: "index_names xs 0 [] = Inr bn" by blast
  let ?known = "[e\<leftarrow>patch. dict_get bn (fst e) \<noteq> None]"
  let ?kept = "fold (\<lambda>entry acc. merge_list_entry bn acc entry) ?known xs"
  have bound: "\<forall>n k. dict_get bn n = Some k \<longrightarrow> k < length xs"
    using index_names_bound[OF bn] by blast
  have unknown: "\<And>e. (dict_get bn (fst e) = None) = (\<forall>obj\<in>set xs. \<not> named (fst e) obj)"
    using index_names_None[OF bn] by (simp add: dict_get_def)
  have "fold (\<lambda>entry acc. merge_list_entry bn acc entry) patch (xs @ []) =
        ?kept @ [] @ map (\<lambda>e. JDict (new_obj (fst e) (snd e))) [e\<leftarrow>patch. dict_get bn (fst e) = None]"
    by (rule fold_list_split[OF bound])
  then have res: "merge_into_pets (JList xs) patch =
          Inr (JList (?kept @ map (\<lambda>entry. JDict (new_obj (fst entry) (snd entry)))
                               [entry\<leftarrow>patch. \<forall>obj\<in>set xs. \<not> named (fst entry) obj]))"
    by (simp add: merge_into_pets_def bn unknown)
  have len: "length ?kept = length xs" by (rule fold_known_length)
  have pos: "\<forall>j<length xs.
           (\<forall>t. xs ! j = JDict t \<longrightarrow>
              (\<exists>t'. ?kept ! j = JDict t' \<and> dict_get t' k_name = dict_get t k_name)) \<and>
           ((\<forall>t. xs ! j \<noteq> JDict t) \<longrightarrow> ?kept ! j = xs ! j)"
  proof (intro allI impI conjI)
    fix j t assume j: "j < length xs" and t: "xs ! j = JDict t"
    from fold_list_frame[OF j t, of bn ?known] k_name_not_merge_key
    show "\<exists>t'. ?kept ! j = JDict t' \<and> dict_get t' k_name = dict_get t k_name" by blast
  next
    fix j assume "j < length xs" "\<forall>t. xs ! j \<noteq> JDict t"
    then show "?kept ! j = xs ! j" by (rule fold_list_nondict)
  qed
  from res len pos
  show "\<exists>kept. merge_into_pets (JList xs) patch =
          Inr (JList (kept @ map (\<lambda>entry. JDict (new_obj (fst entry) (snd entry)))
                               [entry\<leftarrow>patch. \<forall>obj\<in>set xs. \<not> named (fst entry) obj])) \<and>
        length kept = length xs \<and>
        (\<forall>j<length xs.
           (\<forall>t. xs ! j = JDict t \<longrightarrow>
              (\<exists>t'. kept ! j = JDict t' \<and> dict_get t' k_name = dict_get t k_name)) \<and>
           ((\<forall>t. xs ! j \<noteq> JDict t) \<longrightarrow> kept ! j = xs ! j))"
    by blast
qed

lemma merge_keeps_shape_example:
  "\<not> unhashable_name (JDict [(k_name, JStr (ascii ''a''))]) \<and> \<not> unhashable_name (JInt 3) \<and>
   merge_into_pets (JList [JDict [(k_name, JStr (ascii ''a''))], JInt 3])
       [(ascii ''b'', [(k_name, JStr (ascii ''b'')), (k_grade, JStr (ascii ''g''))]),
        (ascii ''a'', [(k_name, JStr (ascii ''a'')), (k_route, JStr (ascii ''r''))])]
     = Inr (JList [JDict [(k_name, JStr (ascii ''a'')), (k_route, JStr (ascii ''r''))], JInt 3,
                   JDict [(k_name, JStr (ascii ''b'')), (k_grade, JStr (ascii ''g''))]])"
proof -
  have h: "\<forall>obj\<in>set [JDict [(k_name, JStr (ascii ''a''))], JInt 3]. \<not> unhashable_name obj"
    by (simp add: merge_eval)
  show ?thesis
    using h merge_keeps_shape[of "[]" "[(ascii ''b'', [(k_name, JStr (ascii ''b'')), (k_grade, JStr (ascii ''g''))]),
        (ascii ''a'', [(k_name, JStr (ascii ''a'')), (k_route, JStr (ascii ''r''))])]"
        "[JDict [(k_name, JStr (ascii ''a''))], JInt 3]" JNull]
    by (simp add: merge_eval)
qed

text \<open>
  C6. The Merger writes only the five recognised fields of an existing entry: when it
  returns, every mapping entry of the dataset (a value of a keyed mapping, an object of a
  sequence) is still a mapping at its place, and each of its fields other than
  \<open>grade\<close>, \<open>s0\<close>, \<open>sg\<close>, \<open>attr\<close>, \<open>route\<close> has the value it had (or is still absent).
\<close>

theorem merge_frame:
  assumes "merge_into_pets data patch = Inr out"
  shows "(\<forall>d. data = JDict d \<longrightarrow> (\<exists>d'. out = JDict d' \<and>
            (\<forall>n t. dict_get d n = Some (JDict t) \<longrightarrow>
               (\<exists>t'. dict_get d' n = Some (JDict t') \<and>
                  (\<forall>k. k \<notin> set merge_keys \<longrightarrow> dict_get t' k = dict_get t k))))) \<and>
         (\<forall>xs. data = JList xs \<longrightarrow> (\<exists>ys. out = JList ys \<and> length xs \<le> length ys \<and>
            (\<forall>i t. i < length xs \<and> xs ! i = JDict t \<longrightarrow>
               (\<exists>t'. ys ! i = JDict t' \<and>
                  (\<forall>k. k \<notin> set merge_keys \<longrightarrow> dict_get t' k = dict_get t k)))))"
proof (intro conjI allI impI)
  fix d assume "data = JDict d"
  with assms have out: "out = JDict (fold (\<lambda>entry acc. merge_dict_entry acc entry) patch d)"
    by (simp add: merge_into_pets_def)
  have "\<forall>n t. dict_get d n = Some (JDict t) \<longrightarrow>
          (\<exists>t'. dict_get (fold (\<lambda>entry acc. merge_dict_entry acc entry) patch d) n = Some (JDict t') \<and>
                  (\<forall>k. k \<notin> set merge_keys \<longrightarrow> dict_get t' k = dict_get t k))"
    by (intro allI impI) (rule fold_dict_frame)
  with out show "\<exists>d'. out = JDict d' \<and>
            (\<forall>n t. dict_get d n = Some (JDict t) \<longrightarrow>
               (\<exists>t'. dict_get d' n = Some (JDict t') \<and>
                  (\<forall>k. k \<notin> set merge_keys \<longrightarrow> dict_get t' k = dict_get t k)))"
    by simp
next
  fix xs assume "data = JList xs"
  with assms obtain bn where
    out: "out = JList (fold (\<lambda>entry acc. merge_list_entry bn acc entry) patch xs)"
    by (auto simp: merge_into_pets_def split: sum.splits)
  have "\<forall>i t. i < length xs \<and> xs ! i = JDict t \<longrightarrow>
          (\<exists>t'. fold (\<lambda>entry acc. merge_list_entry bn acc entry) patch xs ! i = JDict t' \<and>
                  (\<forall>k. k \<notin> set merge_keys \<longrightarrow> dict_get t' k = dict_get t k))"
    by (intro allI impI, elim conjE) (rule fold_list_frame)
  with out fold_list_length[of xs bn patch]
  show "\<exists>ys. out = JList ys \<and> length xs \<le> length ys \<and>
            (\<forall>i t. i < length xs \<and> xs ! i = JDict t \<longrightarrow>
               (\<exists>t'. ys ! i = JDict t' \<and>
                  (\<forall>k. k \<notin> set merge_keys \<longrightarrow> dict_get t' k = dict_get t k)))"
    by simp
qed

theorem merge_frame_witness:
  "merge_into_pets (JList [JDict [(k_name, JStr (ascii ''a'')), (ascii ''memo'', JInt 7)]])
       [(ascii ''a'', [(k_name, JStr (ascii ''a'')), (k_grade, JStr (ascii ''g''))])]
     = Inr (JList [JDict [(k_name, JStr (ascii ''a'')), (ascii ''memo'', JInt 7), (k_grade, JStr (ascii ''g''))]]) \<and>
   dict_get [(k_name, JStr (ascii ''a'')), (ascii ''memo'', JInt 7), (k_grade, JStr (ascii ''g''))] (ascii ''memo'')
     = dict_get [(k_name, JStr (ascii ''a'')), (ascii ''memo'', JInt 7)] (ascii ''memo'')"
proof -
  have h: "merge_into_pets (JList [JDict [(k_name, JStr (ascii ''a'')), (ascii ''memo'', JInt 7)]])
       [(ascii ''a'', [(k_name, JStr (ascii ''a'')), (k_grade, JStr (ascii ''g''))])]
     = Inr (JList [JDict [(k_name, JStr (ascii ''a'')), (ascii ''memo'', JInt 7), (k_grade, JStr (ascii ''g''))]])"
    by (simp add: merge_eval)
  show ?thesis using h merge_frame[OF h] by (simp add: merge_eval)
qed

text \<open>
  C7. The claim says that the Merger returns normally for every mapping and every sequence.
  For the sequence \<open>[{"name": []}]\<close> the store \<open>by_name[obj["name"]] = obj\<close> raises
  \<open>TypeError\<close> (a list is unhashable), although the function's docstring promises a list
  for a list. The theorem evaluates the Merger at that input.
\<close>

theorem list_with_unhashable_name_raises:
  "merge_into_pets (JList [JDict [(k_name, JList [])]]) [] = Inl TypeError"
  by (simp add: merge_eval)

text \<open>
  C9, as stated, fails for JSON \<open>null\<close>: \<open>data.get(name)\<close> is \<open>None\<close> for a name stored
  with \<open>null\<close>, so the value is replaced by a fresh mapping that receives the patch fields.
\<close>

theorem null_target_replaced:
  "dict_get [(ascii ''a'', JNull)] (ascii ''a'') = Some JNull \<and>
   merge_into_pets (JDict [(ascii ''a'', JNull)]) [(ascii ''a'', [(k_grade, JStr (ascii ''x''))])]
     = Inr (JDict [(ascii ''a'', JDict [(k_grade, JStr (ascii ''x''))])])"
  by (simp add: merge_eval)

text \<open>
  C9, amended. In a keyed-mapping dataset, a value stored under a patch name that is neither
  a mapping nor \<open>null\<close> is left unchanged, no error is raised, and the patch entry for that
  name has no effect at all: the result is the one of the patch without that name. A
  stored \<open>null\<close> is treated like a missing name: it is replaced by a new mapping that holds
  the recognised fields \<open>grade\<close>, \<open>s0\<close>, \<open>sg\<close>, \<open>attr\<close>, \<open>route\<close> of the patch record for that
  name, each with the value the patch record gives it, and no other field.
\<close>

theorem non_mapping_target_skipped:
  "(dict_get d n = Some v \<and> v \<noteq> JNull \<and> (\<forall>t. v \<noteq> JDict t) \<longrightarrow>
      (\<exists>d'. merge_into_pets (JDict d) patch = Inr (JDict d') \<and> dict_get d' n = Some v \<and>
            merge_into_pets (JDict d) patch = merge_into_pets (JDict d) [entry\<leftarrow>patch. fst entry \<noteq> n])) \<and>
   (dict_get d n = Some JNull \<and> distinct (map fst patch) \<and> (n, extra) \<in> set patch \<longrightarrow>
      (\<exists>d' t. merge_into_pets (JDict d) patch = Inr (JDict d') \<and> dict_get d' n = Some (JDict t) \<and>
            t = merge_fields [] extra \<and>
            (\<forall>k. dict_get t k = (if k \<in> set merge_keys then dict_get extra k else None))))"
proof (intro conjI impI)
  assume a: "dict_get d n = Some v \<and> v \<noteq> JNull \<and> (\<forall>t. v \<noteq> JDict t)"
  then have h: "dict_get d n = Some v" "v \<noteq> JNull" "\<forall>t. v \<noteq> JDict t" by simp_all
  let ?f = "\<lambda>entry acc. merge_dict_entry acc entry"
  have same: "fold ?f patch d = fold ?f [entry\<leftarrow>patch. fst entry \<noteq> n] d"
    and kept: "dict_get (fold ?f patch d) n = Some v"
    using fold_dict_skip[OF h, of patch] by blast+
  have "merge_into_pets (JDict d) patch = Inr (JDict (fold ?f patch d))"
    by (simp add: merge_into_pets_def)
  moreover have "merge_into_pets (JDict d) [entry\<leftarrow>patch. fst entry \<noteq> n] = Inr (JDict (fold ?f patch d))"
    by (simp add: merge_into_pets_def same)
  ultimately show "\<exists>d'. merge_into_pets (JDict d) patch = Inr (JDict d') \<and> dict_get d' n = Some v \<and>
            merge_into_pets (JDict d) patch = merge_into_pets (JDict d) [entry\<leftarrow>patch. fst entry \<noteq> n]"
    using kept by simp
next
  assume a: "dict_get d n = Some JNull \<and> distinct (map fst patch) \<and> (n, extra) \<in> set patch"
  then have h: "dict_get d n = Some JNull" "distinct (map fst patch)" "(n, extra) \<in> set patch"
    by simp_all
  let ?d' = "fold (\<lambda>entry acc. merge_dict_entry acc entry) patch d"
  have "merge_into_pets (JDict d) patch = Inr (JDict ?d')" by (simp add: merge_into_pets_def)
  moreover note fold_dict_null[OF h]
  moreover have "\<forall>k. dict_get (merge_fields [] extra) k = (if k \<in> set merge_keys then dict_get extra k else None)"
    by (intro allI) (rule merge_fields_empty)
  ultimately show "\<exists>d' t. merge_into_pets (JDict d) patch = Inr (JDict d') \<and> dict_get d' n = Some (JDict t) \<and>
            t = merge_fields [] extra \<and>
            (\<forall>k. dict_get t k = (if k \<in> set merge_keys then dict_get extra k else None))"
    by blast
qed

theorem non_mapping_target_skipped_witness:
  "dict_get [(ascii ''a'', JStr (ascii ''x''))] (ascii ''a'') = Some (JStr (ascii ''x'')) \<and>
   merge_into_pets (JDict [(ascii ''a'', JStr (ascii ''x''))]) [(ascii ''a'', [(k_grade, JStr (ascii ''g''))])]
     = Inr (JDict [(ascii ''a'', JStr (ascii ''x''))]) \<and>
   dict_get [(ascii ''c'', JInt 1), (ascii ''b'', JNull)] (ascii ''b'') = Some JNull \<and>
   distinct (map fst [(ascii ''b'', [(k_name, JStr (ascii ''b'')), (k_grade, JStr (ascii ''g'')),
                                    (k_s0, JDict [(ascii ''atk'', JInt 3)])])]) \<and>
   merge_into_pets (JDict [(ascii ''c'', JInt 1), (ascii ''b'', JNull)])
       [(ascii ''b'', [(k_name, JStr (ascii ''b'')), (k_grade, JStr (ascii ''g'')),
                       (k_s0, JDict [(ascii ''atk'', JInt 3)])])]
     = Inr (JDict [(ascii ''c'', JInt 1),
                   (ascii ''b'', JDict [(k_grade, JStr (ascii ''g'')),
                                        (k_s0, JDict [(ascii ''atk'', JInt 3)])])])"
  using non_mapping_target_skipped[of "[(ascii ''a'', JStr (ascii ''x''))]" "ascii ''a''"
      "JStr (ascii ''x'')" "[(ascii ''a'', [(k_grade, JStr (ascii ''g''))])]" "[]"]
    non_mapping_target_skipped[of "[(ascii ''c'', JInt 1), (ascii ''b'', JNull)]" "ascii ''b''" JNull
      "[(ascii ''b'', [(k_name, JStr (ascii ''b'')), (k_grade, JStr (ascii ''g'')),
                       (k_s0, JDict [(ascii ''atk'', JInt 3)])])]"
      "[(k_name, JStr (ascii ''b'')), (k_grade, JStr (ascii ''g'')),
                       (k_s0, JDict [(ascii ''atk'', JInt 3)])]"]
  by (simp add: merge_eval)

text \<open>
  C10. The claim says that the patch record of a name is applied to the last object of the
  sequence that carries the name. In the sequence
  \<open>[{"name": "a", "grade": "g"}, {"name": "a"}, {"name": {}}]\<close> two objects carry the name
  \<open>a\<close>; line 185 raises \<open>TypeError\<close> while the index of names is built (a \<open>dict\<close> is
  unhashable), so the patch record of \<open>a\<close> is applied to no object. The store is not
  guarded against a name that is a list or a mapping. The theorem evaluates the Merger at
  that input.
\<close>

theorem duplicate_names_not_patched:
  "named (ascii ''a'') (JDict [(k_name, JStr (ascii ''a'')), (k_grade, JStr (ascii ''g''))]) \<and>
   named (ascii ''a'') (JDict [(k_name, JStr (ascii ''a''))]) \<and>
   merge_into_pets (JList [JDict [(k_name, JStr (ascii ''a'')), (k_grade, JStr (ascii ''g''))],
                           JDict [(k_name, JStr (ascii ''a''))],
                           JDict [(k_name, JDict [])]])
       [(ascii ''a'', [(k_name, JStr (ascii ''a'')), (k_route, JStr (ascii ''r''))])]
     = Inl TypeError"
  by (simp add: merge_eval)

text \<open>
  Apart from that defect the last object wins: in a sequence whose objects have hashable
  names and where several objects carry the name \<open>n\<close>, the patch record of \<open>n\<close> is merged
  into the last of them (each recognised field of the patch record goes into the object:
  a mapping is stored into an existing mapping by \<open>update\<close>, anything else replaces the
  field; the other fields stay), every earlier object with that name is unchanged, and
  none of the objects appended to the sequence carries \<open>n\<close>.
\<close>

lemma duplicates_last_wins:
  assumes hashable: "\<forall>obj\<in>set xs. \<not> unhashable_name obj"
    and patch: "distinct (map fst patch)" "(n, extra) \<in> set patch"
    and last: "i < length xs" "named n (xs ! i)" "\<forall>j. i < j \<and> j < length xs \<longrightarrow> \<not> named n (xs ! j)"
  shows "\<exists>ys. merge_into_pets (JList xs) patch = Inr (JList ys) \<and> length xs \<le> length ys \<and>
           (\<exists>t t'. xs ! i = JDict t \<and> ys ! i = JDict t' \<and> t' = merge_fields t extra \<and>
              (\<forall>k. k \<in> set merge_keys \<longrightarrow>
                 dict_get t' k =
                   (case dict_get extra k of
                      None \<Rightarrow> dict_get t k
                    | Some v \<Rightarrow>
                        (case v of
                           JDict e \<Rightarrow> (case dict_get t k of
                                         Some (JDict d) \<Rightarrow> Some (JDict (dict_update d e))
                                       | _ \<Rightarrow> Some v)
                         | _ \<Rightarrow> Some v))) \<and>
              (\<forall>k. k \<notin> set merge_keys \<longrightarrow> dict_get t' k = dict_get t k)) \<and>
           (\<forall>j<i. named n (xs ! j) \<longrightarrow> ys ! j = xs ! j) \<and>
           (\<forall>j. length xs \<le> j \<and> j < length ys \<longrightarrow> \<not> named n (ys ! j))"
proof -
  from index_names_ok[OF hashable, of 0 "[]"] obtain bn where bn: "index_names xs 0 [] = Inr bn" by blast
  let ?ys = "fold (\<lambda>entry acc. merge_list_entry bn acc entry) patch xs"
  have res: "merge_into_pets (JList xs) patch = Inr (JList ?ys)"
    by (simp add: merge_into_pets_def bn)
  have bni: "dict_get bn n = Some i" by (rule index_names_last[OF bn last])
  from last(2) obtain t where t: "xs ! i = JDict t"
    by (auto simp: named_def split: json.splits)
  have others: "\<forall>entry\<in>set patch. fst entry \<noteq> n \<longrightarrow> dict_get bn (fst entry) \<noteq> Some i"
  proof (intro ballI impI notI)
    fix entry assume "fst entry \<noteq> n" "dict_get bn (fst entry) = Some i"
    with index_names_bound[OF bn, of "fst entry" i] last(2) show False
      using named_inj by blast
  qed
  have target: "?ys ! i = JDict (merge_fields t extra)"
    by (rule fold_list_target[OF patch bni last(1) others t])
  have earlier: "\<forall>j<i. named n (xs ! j) \<longrightarrow> ?ys ! j = xs ! j"
  proof (intro allI impI)
    fix j assume j: "j < i" and nj: "named n (xs ! j)"
    have "\<forall>entry\<in>set patch. dict_get bn (fst entry) \<noteq> Some j"
    proof (intro ballI notI)
      fix entry assume e: "dict_get bn (fst entry) = Some j"
      from index_names_bound[OF bn e] nj have "fst entry = n" using named_inj by blast
      with e bni j show False by simp
    qed
    with j last(1) show "?ys ! j = xs ! j" by (intro fold_list_untouched) simp_all
  qed
  have bound: "\<forall>n k. dict_get bn n = Some k \<longrightarrow> k < length xs"
    using index_names_bound[OF bn] by blast
  let ?kept = "fold (\<lambda>entry acc. merge_list_entry bn acc entry) [e\<leftarrow>patch. dict_get bn (fst e) \<noteq> None] xs"
  let ?new = "map (\<lambda>e. JDict (new_obj (fst e) (snd e))) [e\<leftarrow>patch. dict_get bn (fst e) = None]"
  have decomp: "?ys = ?kept @ ?new"
    using fold_list_split[OF bound, of patch "[]"] by simp
  have len: "length ?kept = length xs" by (rule fold_known_length)
  have appended: "\<forall>j. length xs \<le> j \<and> j < length ?ys \<longrightarrow> \<not> named n (?ys ! j)"
  proof (intro allI impI)
    fix j assume j: "length xs \<le> j \<and> j < length ?ys"
    then have "j - length xs < length ?new" using len by (simp add: decomp) arith
    then have "?new ! (j - length xs) \<in> set ?new" by (rule nth_mem)
    moreover have "?ys ! j = ?new ! (j - length xs)" using j len by (simp add: decomp nth_append)
    ultimately obtain e where e: "dict_get bn (fst e) = None" "?ys ! j = JDict (new_obj (fst e) (snd e))"
      by auto
    from e(1) bni have "fst e \<noteq> n" by auto
    with e(2) show "\<not> named n (?ys ! j)" by (simp add: named_new_obj)
  qed
  have fields: "\<exists>t t'. xs ! i = JDict t \<and> ?ys ! i = JDict t' \<and> t' = merge_fields t extra \<and>
              (\<forall>k. k \<in> set merge_keys \<longrightarrow>
                 dict_get t' k =
                   (case dict_get extra k of
                      None \<Rightarrow> dict_get t k
                    | Some v \<Rightarrow>
                        (case v of
                           JDict e \<Rightarrow> (case dict_get t k of
                                         Some (JDict d) \<Rightarrow> Some (JDict (dict_update d e))
                                       | _ \<Rightarrow> Some v)
                         | _ \<Rightarrow> Some v))) \<and>
              (\<forall>k. k \<notin> set merge_keys \<longrightarrow> dict_get t' k = dict_get t k)"
    using t target merge_fields_key[of _ t extra] dict_get_merge_fields[of _ t extra] by blast
  from res fold_list_length[of xs bn patch] fields earlier appended show ?thesis by blast
qed

lemma duplicates_last_wins_example:
  "merge_into_pets
       (JList [JDict [(k_name, JStr (ascii ''a'')), (k_s0, JDict [(ascii ''atk'', JInt 1)])],
               JDict [(k_name, JStr (ascii ''a'')), (ascii ''memo'', JInt 7),
                      (k_s0, JDict [(ascii ''atk'', JInt 1), (ascii ''x'', JInt 9)])]])
       [(ascii ''a'', [(k_name, JStr (ascii ''a'')), (k_grade, JStr (ascii ''g'')),
                       (k_s0, JDict [(ascii ''atk'', JInt 10), (ascii ''def'', JInt 5)])])]
     = Inr (JList [JDict [(k_name, JStr (ascii ''a'')), (k_s0, JDict [(ascii ''atk'', JInt 1)])],
                   JDict [(k_name, JStr (ascii ''a'')), (ascii ''memo'', JInt 7),
                          (k_s0, JDict [(ascii ''atk'', JInt 10), (ascii ''x'', JInt 9),
                                        (ascii ''def'', JInt 5)]),
                          (k_grade, JStr (ascii ''g''))]])"
  by (simp add: merge_eval)


section \<open>Properties of the Extractor\<close>

subsection \<open>What a match of each pattern looks like\<close>

lemma rmatch_Lit:
  assumes "rmatch (Lit x # r) s c = Some res"
  obtains t where "s = x # t" "rmatch r t c = Some res"
  using assms by (cases s) (auto split: if_splits)

lemma rmatch_lits:
  assumes "rmatch (lits w @ r) s c = Some res"
  obtains t where "s = w @ t" "rmatch r t c = Some res"
proof -
  have "\<exists>t. s = w @ t \<and> rmatch r t c = Some res" using assms
  proof (induction w arbitrary: s)
    case Nil
    then show ?case by (simp add: lits_def)
  next
    case (Cons x w)
    from Cons.prems have "rmatch (Lit x # (lits w @ r)) s c = Some res" by (simp add: lits_def)
    then obtain t where t: "s = x # t" "rmatch (lits w @ r) t c = Some res" by (rule rmatch_Lit)
    from Cons.IH[OF t(2)] t(1) show ?case by auto
  qed
  then show ?thesis using that by blast
qed

lemma rmatch_Cls:
  assumes "rmatch (Cls p # r) s c = Some res"
  obtains y t where "s = y # t" "p y" "rmatch r t c = Some res"
  using assms by (cases s) (auto split: if_splits)

lemma rmatch_Star:
  assumes "rmatch (Star p # r) s c = Some res"
  obtains u t where "s = u @ t" "list_all p u" "rmatch r t c = Some res"
proof -
  have "\<exists>u t. s = u @ t \<and> list_all p u \<and> rmatch r t c = Some res" using assms
  proof (induction s)
    case Nil
    then show ?case by simp
  next
    case (Cons y s)
    show ?case
    proof (cases "p y \<and> rmatch (Star p # r) s c \<noteq> None")
      case True
      with Cons.prems have "rmatch (Star p # r) s c = Some res"
        by (cases "rmatch (Star p # r) s c") auto
      from Cons.IH[OF this] obtain u t where "s = u @ t" "list_all p u" "rmatch r t c = Some res"
        by blast
      with True have "y # s = (y # u) @ t \<and> list_all p (y # u) \<and> rmatch r t c = Some res" by simp
      then show ?thesis by blast
    next
      case False
      with Cons.prems have "rmatch r (y # s) c = Some res"
        by (cases "rmatch (Star p # r) s c") (auto split: if_splits)
      then have "y # s = [] @ (y # s) \<and> list_all p [] \<and> rmatch r (y # s) c = Some res" by simp
      then show ?thesis by blast
    qed
  qed
  then show ?thesis using that by blast
qed

lemma rmatch_Plus:
  assumes "rmatch (Plus p # r) s c = Some res"
  obtains u t where "s = u @ t" "u \<noteq> []" "list_all p u" "rmatch r t c = Some res"
proof -
  from assms obtain y s' where s: "s = y # s'" "p y" "rmatch (Star p # r) s' c = Some res"
    by (cases s) (auto split: if_splits)
  from s(3) obtain u t where "s' = u @ t" "list_all p u" "rmatch r t c = Some res"
    by (rule rmatch_Star)
  with s have "s = (y # u) @ t" "y # u \<noteq> []" "list_all p (y # u)" "rmatch r t c = Some res" by simp_all
  then show ?thesis by (rule that)
qed

lemma rmatch_Opt:
  assumes "rmatch (Opt g # r) s c = Some res"
  obtains "rmatch (g @ r) s c = Some res" | "rmatch (g @ r) s c = None" "rmatch r s c = Some res"
  using assms by (auto split: option.splits)

lemma rmatch_Grp_text: "rmatch (End_grp n (u @ t) # r) t c = rmatch r t ((n, u) # c)"
  by simp

lemma re_search_Some:
  assumes "re_search r s = Some m"
  obtains pre t rest where "s = pre @ t" "rmatch r t [] = Some (m, rest)"
proof -
  have "\<exists>pre t rest. s = pre @ t \<and> rmatch r t [] = Some (m, rest)" using assms
  proof (induction s)
    case Nil
    then show ?case by (auto simp: re_match_def)
  next
    case (Cons x xs)
    show ?case
    proof (cases "re_match r (x # xs)")
      case None
      with Cons.prems have "re_search r xs = Some m" by simp
      from Cons.IH[OF this] obtain pre t rest where "xs = pre @ t" "rmatch r t [] = Some (m, rest)"
        by blast
      then have "x # xs = (x # pre) @ t \<and> rmatch r t [] = Some (m, rest)" by simp
      then show ?thesis by blast
    next
      case (Some c)
      with Cons.prems have "re_match r (x # xs) = Some m" by simp
      then obtain rest where "rmatch r (x # xs) [] = Some (m, rest)" by (auto simp: re_match_def)
      then have "x # xs = [] @ (x # xs) \<and> rmatch r (x # xs) [] = Some (m, rest)" by simp
      then show ?thesis by blast
    qed
  qed
  then show ?thesis using that by blast
qed

text \<open>A group around one greedy run of a class.\<close>

lemma rmatch_Grp_Plus:
  assumes "rmatch (Grp n [Plus p] # r) s c = Some res"
  obtains u t where "s = u @ t" "u \<noteq> []" "list_all p u" "rmatch r t ((n, u) # c) = Some res"
proof -
  from assms have "rmatch (Plus p # End_grp n s # r) s c = Some res" by simp
  then obtain u t where ut: "s = u @ t" "u \<noteq> []" "list_all p u" "rmatch (End_grp n s # r) t c = Some res"
    by (rule rmatch_Plus)
  from ut(4) have "rmatch r t ((n, u) # c) = Some res" unfolding ut(1) by simp
  with ut(1-3) show ?thesis using that by blast
qed

lemma point_not_digit: "\<not> is_digit 46"
  by (simp add: is_digit_def py_decimal_def nd_zeros_def)

lemma digits_no_point: "list_all is_digit u \<Longrightarrow> 46 \<notin> set u"
  using point_not_digit by (auto simp: list_all_iff)

lemma is_number_int: "is_digits u \<Longrightarrow> is_number u"
proof -
  assume u: "is_digits u"
  then have np: "46 \<notin> set u" by (simp add: is_digits_def digits_no_point)
  have tw: "takeWhile (\<lambda>c. c \<noteq> 46) u = u" using np by (auto simp: takeWhile_eq_all_conv)
  have dw: "dropWhile (\<lambda>c. c \<noteq> 46) u = []" using np by (auto simp: dropWhile_eq_Nil_conv)
  show ?thesis unfolding is_number_def Let_def tw dw using u by simp
qed

lemma is_number_frac: "is_digits u \<Longrightarrow> is_digits v \<Longrightarrow> is_number (u @ 46 # v)"
proof -
  assume u: "is_digits u" and v: "is_digits v"
  then have np: "46 \<notin> set u" by (simp add: is_digits_def digits_no_point)
  have tw: "takeWhile (\<lambda>c. c \<noteq> 46) (u @ 46 # v) = u" using np by (auto simp: takeWhile_append)
  have dw: "dropWhile (\<lambda>c. c \<noteq> 46) (u @ 46 # v) = 46 # v" using np by (auto simp: dropWhile_append)
  show ?thesis unfolding is_number_def Let_def tw dw using u v by simp
qed

lemma py_int_digits:
  "is_digits s \<Longrightarrow>
   py_int (Some s) = (if length s \<le> max_str_digits then Inr (int (digits_value s)) else Inl ValueError)"
  by (simp add: py_int_def)

lemma py_int_cases:
  "is_digits s \<Longrightarrow> py_int (Some s) = Inl ValueError \<or> py_int (Some s) = Inr (int (digits_value s))"
  by (simp add: py_int_def)

lemma py_float_number: "is_number s \<Longrightarrow> \<exists>q. py_float (Some s) = Inr q"
  by (auto simp: py_float_def is_number_def Let_def)

lemma rmatch_number:
  assumes "rmatch (number @ r) s c = Some res"
  obtains N t where "s = N @ t" "is_number N" "rmatch r t c = Some res"
proof -
  from assms have "rmatch (Plus is_digit # Opt [Lit 46, Plus is_digit] # r) s c = Some res"
    by (simp add: number_def)
  then obtain u t1 where u: "s = u @ t1" "u \<noteq> []" "list_all is_digit u"
    and o: "rmatch (Opt [Lit 46, Plus is_digit] # r) t1 c = Some res"
    by (rule rmatch_Plus)
  from u have du: "is_digits u" by (simp add: is_digits_def)
  from o show ?thesis
  proof (rule rmatch_Opt)
    assume "rmatch ([Lit 46, Plus is_digit] @ r) t1 c = Some res"
    then have "rmatch (Lit 46 # Plus is_digit # r) t1 c = Some res" by simp
    then obtain t2 where t2: "t1 = 46 # t2" "rmatch (Plus is_digit # r) t2 c = Some res"
      by (rule rmatch_Lit)
    from t2(2) obtain v t3 where v: "t2 = v @ t3" "v \<noteq> []" "list_all is_digit v" "rmatch r t3 c = Some res"
      by (rule rmatch_Plus)
    from v have dv: "is_digits v" by (simp add: is_digits_def)
    have "s = (u @ 46 # v) @ t3" using u t2 v by simp
    then show ?thesis using is_number_frac[OF du dv] v(4) that by blast
  next
    assume "rmatch r t1 c = Some res"
    with u(1) is_number_int[OF du] show ?thesis using that by blast
  qed
qed

lemma rmatch_Grp_number:
  assumes "rmatch (Grp n number # r) s c = Some res"
  obtains N t where "s = N @ t" "is_number N" "rmatch r t ((n, N) # c) = Some res"
proof -
  from assms have "rmatch (number @ End_grp n s # r) s c = Some res" by simp
  then obtain N t where N: "s = N @ t" "is_number N" "rmatch (End_grp n s # r) t c = Some res"
    by (rule rmatch_number)
  from N(3) have "rmatch r t ((n, N) # c) = Some res" unfolding N(1) by simp
  with N(1,2) show ?thesis using that by blast
qed

text \<open>One field of the base-stat line: \<open>LABEL\s*(?P<n>\d+)\<close>.\<close>

lemma rmatch_int_field:
  assumes "rmatch (lits w @ Star is_space # Grp n [Plus is_digit] # r) s c = Some res"
  obtains sp v t where "s = w @ sp @ v @ t" "list_all is_space sp" "is_digits v"
    "rmatch r t ((n, v) # c) = Some res"
proof -
  from assms obtain t1 where t1: "s = w @ t1" "rmatch (Star is_space # Grp n [Plus is_digit] # r) t1 c = Some res"
    by (rule rmatch_lits)
  from t1(2) obtain sp t2 where sp: "t1 = sp @ t2" "list_all is_space sp"
    "rmatch (Grp n [Plus is_digit] # r) t2 c = Some res" by (rule rmatch_Star)
  from sp(3) obtain v t where v: "t2 = v @ t" "v \<noteq> []" "list_all is_digit v" "rmatch r t ((n, v) # c) = Some res"
    by (rule rmatch_Grp_Plus)
  have "s = w @ sp @ v @ t" using t1 sp v by simp
  moreover have "is_digits v" using v by (simp add: is_digits_def)
  ultimately show ?thesis using sp(2) v(4) that by blast
qed

lemma rmatch_num_field:
  assumes "rmatch (lits w @ Star is_space # Grp n number # r) s c = Some res"
  obtains sp v t where "s = w @ sp @ v @ t" "list_all is_space sp" "is_number v"
    "rmatch r t ((n, v) # c) = Some res"
proof -
  from assms obtain t1 where t1: "s = w @ t1" "rmatch (Star is_space # Grp n number # r) t1 c = Some res"
    by (rule rmatch_lits)
  from t1(2) obtain sp t2 where sp: "t1 = sp @ t2" "list_all is_space sp"
    "rmatch (Grp n number # r) t2 c = Some res" by (rule rmatch_Star)
  from sp(3) obtain v t where v: "t2 = v @ t" "is_number v" "rmatch r t ((n, v) # c) = Some res"
    by (rule rmatch_Grp_number)
  have "s = w @ sp @ v @ t" using t1 sp v by simp
  then show ?thesis using sp(2) v(2,3) that by blast
qed

text \<open>The separator between two fields: \<open>,\s*\<close>.\<close>

lemma rmatch_comma:
  assumes "rmatch (Lit 44 # Star is_space # r) s c = Some res"
  obtains sp t where "s = 44 # sp @ t" "list_all is_space sp" "rmatch r t c = Some res"
proof -
  from assms obtain t1 where t1: "s = 44 # t1" "rmatch (Star is_space # r) t1 c = Some res"
    by (rule rmatch_Lit)
  from t1(2) obtain sp t where "t1 = sp @ t" "list_all is_space sp" "rmatch r t c = Some res"
    by (rule rmatch_Star)
  with t1(1) show ?thesis using that by simp
qed

lemma init_groups:
  assumes "re_search INIT_RE line = Some m"
  shows "\<exists>a d g h. is_digits a \<and> is_digits d \<and> is_digits g \<and> is_digits h \<and>
           m = [(''hp'', h), (''agi'', g), (''def'', d), (''atk'', a)]"
proof -
  let ?hp = "lits s_durability @ Star is_space # Grp ''hp'' [Plus is_digit] # []"
  let ?agi = "lits s_agility @ Star is_space # Grp ''agi'' [Plus is_digit] # Lit 44 # Star is_space # ?hp"
  let ?def = "lits s_defense @ Star is_space # Grp ''def'' [Plus is_digit] # Lit 44 # Star is_space # ?agi"
  let ?atk = "lits s_attack @ Star is_space # Grp ''atk'' [Plus is_digit] # Lit 44 # Star is_space # ?def"
  let ?lvl = "lits s_level @ Star is_space # Opt [Lit 58] # Star (\<lambda>c. is_space c \<or> is_digit c) #
                Lit 44 # Star is_space # ?atk"
  from assms obtain pre s0 rest where "rmatch INIT_RE s0 [] = Some (m, rest)"
    by (rule re_search_Some)
  then have "rmatch (lits s_initial @ Star is_space # Lit 58 # Star is_space # ?lvl) s0 [] = Some (m, rest)"
    by (simp add: INIT_RE_def)
  then obtain s1 where "rmatch (Star is_space # Lit 58 # Star is_space # ?lvl) s1 [] = Some (m, rest)"
    by (rule rmatch_lits)
  then obtain s2 where "rmatch (Lit 58 # Star is_space # ?lvl) s2 [] = Some (m, rest)"
    by (rule rmatch_Star)
  then obtain s3 where "rmatch (Star is_space # ?lvl) s3 [] = Some (m, rest)"
    by (rule rmatch_Lit)
  then obtain s4 where "rmatch ?lvl s4 [] = Some (m, rest)"
    by (rule rmatch_Star)
  then obtain s5 where "rmatch (Star is_space # Opt [Lit 58] # Star (\<lambda>c. is_space c \<or> is_digit c) #
                Lit 44 # Star is_space # ?atk) s5 [] = Some (m, rest)"
    by (rule rmatch_lits)
  then obtain s6 where "rmatch (Opt [Lit 58] # Star (\<lambda>c. is_space c \<or> is_digit c) #
                Lit 44 # Star is_space # ?atk) s6 [] = Some (m, rest)"
    by (rule rmatch_Star)
  then obtain s7 where "rmatch (Star (\<lambda>c. is_space c \<or> is_digit c) #
                Lit 44 # Star is_space # ?atk) s7 [] = Some (m, rest)"
    by (rule rmatch_Opt) (auto elim: rmatch_Lit)
  then obtain s8 where "rmatch (Lit 44 # Star is_space # ?atk) s8 [] = Some (m, rest)"
    by (rule rmatch_Star)
  then obtain s9 where "rmatch ?atk s9 [] = Some (m, rest)"
    by (rule rmatch_comma)
  then obtain a s10 where a: "is_digits a"
    and m10: "rmatch (Lit 44 # Star is_space # ?def) s10 [(''atk'', a)] = Some (m, rest)"
    by (rule rmatch_int_field)
  from m10 obtain s11 where "rmatch ?def s11 [(''atk'', a)] = Some (m, rest)"
    by (rule rmatch_comma)
  then obtain d s12 where d: "is_digits d"
    and m12: "rmatch (Lit 44 # Star is_space # ?agi) s12 [(''def'', d), (''atk'', a)] = Some (m, rest)"
    by (rule rmatch_int_field)
  from m12 obtain s13 where "rmatch ?agi s13 [(''def'', d), (''atk'', a)] = Some (m, rest)"
    by (rule rmatch_comma)
  then obtain g s14 where g: "is_digits g"
    and m14: "rmatch (Lit 44 # Star is_space # ?hp) s14 [(''agi'', g), (''def'', d), (''atk'', a)] = Some (m, rest)"
    by (rule rmatch_int_field)
  from m14 obtain s15 where "rmatch ?hp s15 [(''agi'', g), (''def'', d), (''atk'', a)] = Some (m, rest)"
    by (rule rmatch_comma)
  then obtain h s16 where h: "is_digits h"
    and "rmatch [] s16 [(''hp'', h), (''agi'', g), (''def'', d), (''atk'', a)] = Some (m, rest)"
    by (rule rmatch_int_field)
  then have "m = [(''hp'', h), (''agi'', g), (''def'', d), (''atk'', a)]" by simp
  with a d g h show ?thesis by blast
qed

lemma rmatch_Grp_Cls:
  assumes "rmatch (Grp n [Cls p] # r) s c = Some res"
  obtains y t where "s = y # t" "p y" "rmatch r t ((n, [y]) # c) = Some res"
proof -
  from assms have "rmatch (Cls p # End_grp n s # r) s c = Some res" by simp
  then obtain y t where yt: "s = y # t" "p y" "rmatch (End_grp n s # r) t c = Some res"
    by (rule rmatch_Cls)
  from yt(3) have "rmatch r t ((n, [y]) # c) = Some res" unfolding yt(1) by simp
  with yt(1,2) show ?thesis using that by blast
qed

lemma header_groups:
  assumes "re_match HEADER_RE line = Some m"
  shows "\<exists>nm. nm \<noteq> [] \<and> 93 \<notin> set nm \<and>
           (m = [(''name'', nm)] \<or> (\<exists>dg. is_digit dg \<and> m = [(''grade'', [dg]), (''name'', nm)]))"
proof -
  let ?tail = "lits s_pet_search"
  let ?grade = "[Lit 91, Grp ''grade'' [Cls is_digit]] @ lits s_grade @ [Lit 93, Star is_space]"
  from assms obtain rest where "rmatch HEADER_RE line [] = Some (m, rest)"
    by (auto simp: re_match_def)
  then have "rmatch (Lit 91 # Grp ''name'' [Plus (\<lambda>c. c \<noteq> 93)] # Lit 93 # Star is_space #
      Opt ?grade # ?tail @ []) line [] = Some (m, rest)"
    by (simp add: HEADER_RE_def)
  then obtain s1 where "rmatch (Grp ''name'' [Plus (\<lambda>c. c \<noteq> 93)] # Lit 93 # Star is_space #
      Opt ?grade # ?tail @ []) s1 [] = Some (m, rest)"
    by (rule rmatch_Lit)
  then obtain nm s2 where nm: "nm \<noteq> []" "list_all (\<lambda>c. c \<noteq> 93) nm"
    and m2: "rmatch (Lit 93 # Star is_space # Opt ?grade # ?tail @ []) s2 [(''name'', nm)] = Some (m, rest)"
    by (rule rmatch_Grp_Plus)
  from m2 obtain s3 where "rmatch (Star is_space # Opt ?grade # ?tail @ []) s3 [(''name'', nm)] = Some (m, rest)"
    by (rule rmatch_Lit)
  then obtain s4 where m4: "rmatch (Opt ?grade # ?tail @ []) s4 [(''name'', nm)] = Some (m, rest)"
    by (rule rmatch_Star)
  have "m = [(''name'', nm)] \<or> (\<exists>dg. is_digit dg \<and> m = [(''grade'', [dg]), (''name'', nm)])"
    using m4
  proof (rule rmatch_Opt)
    assume "rmatch (?grade @ ?tail @ []) s4 [(''name'', nm)] = Some (m, rest)"
    then have "rmatch (Lit 91 # Grp ''grade'' [Cls is_digit] # lits s_grade @ Lit 93 # Star is_space #
        ?tail @ []) s4 [(''name'', nm)] = Some (m, rest)" by simp
    then obtain s5 where "rmatch (Grp ''grade'' [Cls is_digit] # lits s_grade @ Lit 93 # Star is_space #
        ?tail @ []) s5 [(''name'', nm)] = Some (m, rest)" by (rule rmatch_Lit)
    then obtain dg s6 where dg: "is_digit dg"
      and m6: "rmatch (lits s_grade @ Lit 93 # Star is_space # ?tail @ []) s6
                 [(''grade'', [dg]), (''name'', nm)] = Some (m, rest)"
      by (rule rmatch_Grp_Cls)
    from m6 obtain s7 where "rmatch (Lit 93 # Star is_space # ?tail @ []) s7
                 [(''grade'', [dg]), (''name'', nm)] = Some (m, rest)" by (rule rmatch_lits)
    then obtain s8 where "rmatch (Star is_space # ?tail @ []) s8
                 [(''grade'', [dg]), (''name'', nm)] = Some (m, rest)" by (rule rmatch_Lit)
    then obtain s9 where "rmatch (?tail @ []) s9 [(''grade'', [dg]), (''name'', nm)] = Some (m, rest)"
      by (rule rmatch_Star)
    then obtain s10 where "rmatch [] s10 [(''grade'', [dg]), (''name'', nm)] = Some (m, rest)"
      by (rule rmatch_lits)
    then have "m = [(''grade'', [dg]), (''name'', nm)]" by simp
    with dg show ?thesis by blast
  next
    assume "rmatch (?tail @ []) s4 [(''name'', nm)] = Some (m, rest)"
    then obtain s10 where "rmatch [] s10 [(''name'', nm)] = Some (m, rest)"
      by (rule rmatch_lits)
    then show ?thesis by simp
  qed
  moreover have "93 \<notin> set nm" using nm(2) by (auto simp: list_all_iff)
  ultimately show ?thesis using nm(1) by blast
qed

lemma token_groups:
  assumes "re_match ATTR_TOKEN_RE tok = Some m"
  shows "\<exists>el v. is_element el \<and> is_digits v \<and> m = [(''2'', v), (''1'', [el])]"
proof -
  from assms obtain rest where "rmatch ATTR_TOKEN_RE tok [] = Some (m, rest)"
    by (auto simp: re_match_def)
  then have "rmatch (Grp ''1'' [Cls is_element] # Star is_space # Grp ''2'' [Plus is_digit] # []) tok []
      = Some (m, rest)" by (simp add: ATTR_TOKEN_RE_def)
  then obtain el s1 where el: "is_element el"
    and m1: "rmatch (Star is_space # Grp ''2'' [Plus is_digit] # []) s1 [(''1'', [el])] = Some (m, rest)"
    by (rule rmatch_Grp_Cls)
  from m1 obtain s2 where "rmatch (Grp ''2'' [Plus is_digit] # []) s2 [(''1'', [el])] = Some (m, rest)"
    by (rule rmatch_Star)
  then obtain v s3 where v: "v \<noteq> []" "list_all is_digit v"
    and "rmatch [] s3 [(''2'', v), (''1'', [el])] = Some (m, rest)"
    by (rule rmatch_Grp_Plus)
  then have "m = [(''2'', v), (''1'', [el])]" by simp
  with el v show ?thesis by (auto simp: is_digits_def)
qed

lemma labelled_groups:
  assumes "re_search (lits w @ [Star is_space, Lit 58, Star is_space, Grp ''1'' [Plus p]]) line = Some m"
  shows "\<exists>t. t \<noteq> [] \<and> list_all p t \<and> m = [(''1'', t)]"
proof -
  from assms obtain pre s0 rest where
    "rmatch (lits w @ [Star is_space, Lit 58, Star is_space, Grp ''1'' [Plus p]]) s0 [] = Some (m, rest)"
    by (rule re_search_Some)
  then obtain s1 where "rmatch (Star is_space # Lit 58 # Star is_space # Grp ''1'' [Plus p] # []) s1 []
      = Some (m, rest)" by (rule rmatch_lits)
  then obtain s2 where "rmatch (Lit 58 # Star is_space # Grp ''1'' [Plus p] # []) s2 [] = Some (m, rest)"
    by (rule rmatch_Star)
  then obtain s3 where "rmatch (Star is_space # Grp ''1'' [Plus p] # []) s3 [] = Some (m, rest)"
    by (rule rmatch_Lit)
  then obtain s4 where "rmatch (Grp ''1'' [Plus p] # []) s4 [] = Some (m, rest)"
    by (rule rmatch_Star)
  then obtain t s5 where t: "t \<noteq> []" "list_all p t" and "rmatch [] s5 [(''1'', t)] = Some (m, rest)"
    by (rule rmatch_Grp_Plus)
  then have "m = [(''1'', t)]" by simp
  with t show ?thesis by blast
qed

lemma seg_groups: "re_search ATTR_SEG_RE line = Some m \<Longrightarrow> \<exists>seg. m = [(''1'', seg)]"
  using labelled_groups[of s_attribute "\<lambda>c. c \<noteq> 44" line m] by (auto simp: ATTR_SEG_RE_def)

lemma route_groups: "re_search ROUTE_RE line = Some m \<Longrightarrow> \<exists>t. m = [(''1'', t)]"
  using labelled_groups[of s_route "\<lambda>c. c \<noteq> 10" line m] by (auto simp: ROUTE_RE_def)

text \<open>The growth line: what a match of \<open>GROW_RE\<close> looks like and what it captures.\<close>

lemma grow_groups:
  assumes "re_search GROW_RE line = Some m"
  shows "\<exists>pre w1 w2 w3 a w4 w5 d w6 w7 g w8 w9 total w10 w11 h post.
           line = pre @ s_growth @ w1 @ 58 # w2 @
                  s_attack @ w3 @ a @ 44 # w4 @
                  s_defense @ w5 @ d @ 44 # w6 @
                  s_agility @ w7 @ g @ 44 # w8 @
                  s_growth @ w9 @ total @ 44 # w10 @
                  s_durability @ w11 @ h @ post \<and>
           is_number a \<and> is_number d \<and> is_number g \<and> is_number total \<and> is_number h \<and>
           m = [(''hp'', h), (''agi'', g), (''def'', d), (''atk'', a)]"
proof -
  let ?hp = "lits s_durability @ Star is_space # Grp ''hp'' number # []"
  let ?tot = "lits s_growth @ Star is_space # number @ Lit 44 # Star is_space # ?hp"
  let ?agi = "lits s_agility @ Star is_space # Grp ''agi'' number # Lit 44 # Star is_space # ?tot"
  let ?def = "lits s_defense @ Star is_space # Grp ''def'' number # Lit 44 # Star is_space # ?agi"
  let ?atk = "lits s_attack @ Star is_space # Grp ''atk'' number # Lit 44 # Star is_space # ?def"
  from assms obtain pre s0 rest where l0: "line = pre @ s0" and "rmatch GROW_RE s0 [] = Some (m, rest)"
    by (rule re_search_Some)
  then have "rmatch (lits s_growth @ Star is_space # Lit 58 # Star is_space # ?atk) s0 [] = Some (m, rest)"
    by (simp add: GROW_RE_def)
  then obtain s1 where l1: "s0 = s_growth @ s1"
    and "rmatch (Star is_space # Lit 58 # Star is_space # ?atk) s1 [] = Some (m, rest)"
    by (rule rmatch_lits)
  then obtain w1 s2 where l2: "s1 = w1 @ s2"
    and "rmatch (Lit 58 # Star is_space # ?atk) s2 [] = Some (m, rest)"
    by (elim rmatch_Star)
  then obtain s3 where l3: "s2 = 58 # s3" and "rmatch (Star is_space # ?atk) s3 [] = Some (m, rest)"
    by (elim rmatch_Lit)
  then obtain w2 s4 where l4: "s3 = w2 @ s4" and "rmatch ?atk s4 [] = Some (m, rest)"
    by (elim rmatch_Star)
  then obtain w3 a s5 where l5: "s4 = s_attack @ w3 @ a @ s5" and a: "is_number a"
    and "rmatch (Lit 44 # Star is_space # ?def) s5 [(''atk'', a)] = Some (m, rest)"
    by (elim rmatch_num_field)
  then obtain w4 s6 where l6: "s5 = 44 # w4 @ s6" and "rmatch ?def s6 [(''atk'', a)] = Some (m, rest)"
    by (elim rmatch_comma)
  then obtain w5 d s7 where l7: "s6 = s_defense @ w5 @ d @ s7" and d: "is_number d"
    and "rmatch (Lit 44 # Star is_space # ?agi) s7 [(''def'', d), (''atk'', a)] = Some (m, rest)"
    by (elim rmatch_num_field)
  then obtain w6 s8 where l8: "s7 = 44 # w6 @ s8"
    and "rmatch ?agi s8 [(''def'', d), (''atk'', a)] = Some (m, rest)"
    by (elim rmatch_comma)
  then obtain w7 g s9 where l9: "s8 = s_agility @ w7 @ g @ s9" and g: "is_number g"
    and "rmatch (Lit 44 # Star is_space # ?tot) s9 [(''agi'', g), (''def'', d), (''atk'', a)] = Some (m, rest)"
    by (elim rmatch_num_field)
  then obtain w8 s10 where l10: "s9 = 44 # w8 @ s10"
    and "rmatch ?tot s10 [(''agi'', g), (''def'', d), (''atk'', a)] = Some (m, rest)"
    by (elim rmatch_comma)
  then obtain s11 where l11: "s10 = s_growth @ s11"
    and "rmatch (Star is_space # number @ Lit 44 # Star is_space # ?hp) s11
           [(''agi'', g), (''def'', d), (''atk'', a)] = Some (m, rest)"
    by (elim rmatch_lits)
  then obtain w9 s12 where l12: "s11 = w9 @ s12"
    and "rmatch (number @ Lit 44 # Star is_space # ?hp) s12
           [(''agi'', g), (''def'', d), (''atk'', a)] = Some (m, rest)"
    by (elim rmatch_Star)
  then obtain total s13 where l13: "s12 = total @ s13" and t: "is_number total"
    and "rmatch (Lit 44 # Star is_space # ?hp) s13 [(''agi'', g), (''def'', d), (''atk'', a)] = Some (m, rest)"
    by (elim rmatch_number)
  then obtain w10 s14 where l14: "s13 = 44 # w10 @ s14"
    and "rmatch ?hp s14 [(''agi'', g), (''def'', d), (''atk'', a)] = Some (m, rest)"
    by (elim rmatch_comma)
  then obtain w11 h post where l15: "s14 = s_durability @ w11 @ h @ post" and h: "is_number h"
    and "rmatch [] post [(''hp'', h), (''agi'', g), (''def'', d), (''atk'', a)] = Some (m, rest)"
    by (elim rmatch_num_field)
  then have m: "m = [(''hp'', h), (''agi'', g), (''def'', d), (''atk'', a)]" by simp
  have "line = pre @ s_growth @ w1 @ 58 # w2 @
                  s_attack @ w3 @ a @ 44 # w4 @
                  s_defense @ w5 @ d @ 44 # w6 @
                  s_agility @ w7 @ g @ 44 # w8 @
                  s_growth @ w9 @ total @ 44 # w10 @
                  s_durability @ w11 @ h @ post"
    by (simp add: l0 l1 l2 l3 l4 l5 l6 l7 l8 l9 l10 l11 l12 l13 l14 l15)
  with a d g t h m show ?thesis by blast
qed

lemmas key_simps = ascii_simps k_atk_def k_def_def k_agi_def k_hp_def ascii_def
  el_earth_def el_water_def el_fire_def el_wind_def

lemma dict_has_iff: "dict_has d k \<longleftrightarrow> dict_get d k \<noteq> None"
  by (simp add: dict_has_def dict_get_def map_of_eq_None_iff)

lemma set_keys_dict_set: "fst ` set (dict_set d k v) = insert k (fst ` set d)"
  using arg_cong[OF keys_dict_set[of d k v], of set] by (auto split: if_splits)

lemma distinct_dict_set: "distinct (map fst (dict_set d k v)) = distinct (map fst d)"
  by (auto simp: keys_dict_set)

lemma dict_set_same: "dict_get d k = Some v \<Longrightarrow> dict_set d k v = d"
  by (induction d) (auto simp: dict_get_def split: if_splits)

lemma dict_set_twice: "dict_set (dict_set d k v) k v' = dict_set d k v'"
  by (induction d) auto

lemma stats_update_empty:
  "dict_update [] [(k_atk, a), (k_def, d), (k_agi, g), (k_hp, h)]
     = [(k_atk, a), (k_def, d), (k_agi, g), (k_hp, h)]"
  by (simp add: dict_update_def key_simps)

lemma stats_update:
  "dict_update [(k_atk, a0), (k_def, d0), (k_agi, g0), (k_hp, h0)]
      [(k_atk, a), (k_def, d), (k_agi, g), (k_hp, h)]
     = [(k_atk, a), (k_def, d), (k_agi, g), (k_hp, h)]"
  by (simp add: dict_update_def key_simps)

lemma setdefault_update_stats:
  assumes "dict_get r k = None \<or>
     (\<exists>a0 d0 g0 h0. dict_get r k = Some (JDict [(k_atk, a0), (k_def, d0), (k_agi, g0), (k_hp, h0)]))"
  shows "setdefault_update r k [(k_atk, a), (k_def, d), (k_agi, g), (k_hp, h)]
         = Inr (dict_set r k (JDict [(k_atk, a), (k_def, d), (k_agi, g), (k_hp, h)]))"
  using assms by (auto simp: setdefault_update_def stats_update stats_update_empty)

lemma on_init_eq:
  assumes "re_search INIT_RE line = Some m"
  shows "\<exists>a d g h. m = [(''hp'', h), (''agi'', g), (''def'', d), (''atk'', a)] \<and>
           on_init m r =
             (if length a \<le> max_str_digits \<and> length d \<le> max_str_digits \<and>
                 length g \<le> max_str_digits \<and> length h \<le> max_str_digits
              then setdefault_update r k_s0
                     [(k_atk, JInt (int (digits_value a))), (k_def, JInt (int (digits_value d))),
                      (k_agi, JInt (int (digits_value g))), (k_hp, JInt (int (digits_value h)))]
              else Inl ValueError)"
proof -
  from init_groups[OF assms] obtain a d g h where
    dg: "is_digits a" "is_digits d" "is_digits g" "is_digits h"
    and m: "m = [(''hp'', h), (''agi'', g), (''def'', d), (''atk'', a)]" by blast
  have "on_init m r =
             (if length a \<le> max_str_digits \<and> length d \<le> max_str_digits \<and>
                 length g \<le> max_str_digits \<and> length h \<le> max_str_digits
              then setdefault_update r k_s0
                     [(k_atk, JInt (int (digits_value a))), (k_def, JInt (int (digits_value d))),
                      (k_agi, JInt (int (digits_value g))), (k_hp, JInt (int (digits_value h)))]
              else Inl ValueError)"
    using dg by (simp add: m on_init_def group_def py_int_digits and_then_def)
  with m show ?thesis by blast
qed

lemma on_grow_eq:
  assumes "re_search GROW_RE line = Some m"
  shows "\<exists>a d g h. on_grow m r =
           setdefault_update r k_sg [(k_atk, JFloat a), (k_def, JFloat d), (k_agi, JFloat g), (k_hp, JFloat h)]"
proof -
  from grow_groups[OF assms] obtain a d g h where n:
    "is_number a" "is_number d" "is_number g" "is_number h"
    and m: "m = [(''hp'', h), (''agi'', g), (''def'', d), (''atk'', a)]" by blast
  from py_float_number[OF n(1)] obtain qa where qa: "py_float (Some a) = Inr qa" by blast
  from py_float_number[OF n(2)] obtain qd where qd: "py_float (Some d) = Inr qd" by blast
  from py_float_number[OF n(3)] obtain qg where qg: "py_float (Some g) = Inr qg" by blast
  from py_float_number[OF n(4)] obtain qh where qh: "py_float (Some h) = Inr qh" by blast
  from m qa qd qg qh have "on_grow m r = setdefault_update r k_sg
      [(k_atk, JFloat qa), (k_def, JFloat qd), (k_agi, JFloat qg), (k_hp, JFloat qh)]"
    by (simp add: on_grow_def group_def and_then_def)
  then show ?thesis by blast
qed

text \<open>The attribute block that the tokens of a segment build.\<close>

lemma is_element_cases:
  "is_element el \<Longrightarrow> [el] = el_earth \<or> [el] = el_water \<or> [el] = el_fire \<or> [el] = el_wind"
  by (auto simp: is_element_def key_simps)

lemma attr_token_shape:
  assumes "0 \<le> a" "0 \<le> b" "0 \<le> c" "0 \<le> d"
  shows "attr_token [(el_earth, a), (el_water, b), (el_fire, c), (el_wind, d)] tok = Inl ValueError \<or>
         (\<exists>a' b' c' d'. 0 \<le> a' \<and> 0 \<le> b' \<and> 0 \<le> c' \<and> 0 \<le> d' \<and>
           attr_token [(el_earth, a), (el_water, b), (el_fire, c), (el_wind, d)] tok
             = Inr [(el_earth, a'), (el_water, b'), (el_fire, c'), (el_wind, d')])"
proof (cases "strip tok = [] \<or> re_match ATTR_TOKEN_RE (strip tok) = None")
  case True
  then have "attr_token [(el_earth, a), (el_water, b), (el_fire, c), (el_wind, d)] tok
             = Inr [(el_earth, a), (el_water, b), (el_fire, c), (el_wind, d)]"
    by (auto simp: attr_token_def Let_def)
  with assms show ?thesis by blast
next
  case False
  then obtain m where m: "strip tok \<noteq> []" "re_match ATTR_TOKEN_RE (strip tok) = Some m" by auto
  from token_groups[OF m(2)] obtain el v where
    el: "is_element el" and v: "is_digits v" and mm: "m = [(''2'', v), (''1'', [el])]" by blast
  let ?v = "int (digits_value v)"
  show ?thesis
  proof (cases "length v \<le> max_str_digits")
    case long: False
    have "attr_token [(el_earth, a), (el_water, b), (el_fire, c), (el_wind, d)] tok = Inl ValueError"
      using m v mm long by (simp add: attr_token_def Let_def group_def py_int_digits and_then_def)
    then show ?thesis by blast
  next
    case short: True
    have eq: "attr_token [(el_earth, a), (el_water, b), (el_fire, c), (el_wind, d)] tok
          = Inr (dict_set [(el_earth, a), (el_water, b), (el_fire, c), (el_wind, d)] [el] ?v)"
      using m v mm short by (simp add: attr_token_def Let_def group_def py_int_digits and_then_def)
    have "0 \<le> ?v" by simp
    from is_element_cases[OF el] have
      "dict_set [(el_earth, a), (el_water, b), (el_fire, c), (el_wind, d)] [el] ?v
         = [(el_earth, ?v), (el_water, b), (el_fire, c), (el_wind, d)] \<or>
       dict_set [(el_earth, a), (el_water, b), (el_fire, c), (el_wind, d)] [el] ?v
         = [(el_earth, a), (el_water, ?v), (el_fire, c), (el_wind, d)] \<or>
       dict_set [(el_earth, a), (el_water, b), (el_fire, c), (el_wind, d)] [el] ?v
         = [(el_earth, a), (el_water, b), (el_fire, ?v), (el_wind, d)] \<or>
       dict_set [(el_earth, a), (el_water, b), (el_fire, c), (el_wind, d)] [el] ?v
         = [(el_earth, a), (el_water, b), (el_fire, c), (el_wind, ?v)]"
      by (elim disjE) (simp_all add: key_simps)
    then show ?thesis
    proof (elim disjE)
      assume "dict_set [(el_earth, a), (el_water, b), (el_fire, c), (el_wind, d)] [el] ?v
         = [(el_earth, ?v), (el_water, b), (el_fire, c), (el_wind, d)]"
      with eq have "attr_token [(el_earth, a), (el_water, b), (el_fire, c), (el_wind, d)] tok
          = Inr [(el_earth, ?v), (el_water, b), (el_fire, c), (el_wind, d)]" by simp
      with assms \<open>0 \<le> ?v\<close> show ?thesis by blast
    next
      assume "dict_set [(el_earth, a), (el_water, b), (el_fire, c), (el_wind, d)] [el] ?v
         = [(el_earth, a), (el_water, ?v), (el_fire, c), (el_wind, d)]"
      with eq have "attr_token [(el_earth, a), (el_water, b), (el_fire, c), (el_wind, d)] tok
          = Inr [(el_earth, a), (el_water, ?v), (el_fire, c), (el_wind, d)]" by simp
      with assms \<open>0 \<le> ?v\<close> show ?thesis by blast
    next
      assume "dict_set [(el_earth, a), (el_water, b), (el_fire, c), (el_wind, d)] [el] ?v
         = [(el_earth, a), (el_water, b), (el_fire, ?v), (el_wind, d)]"
      with eq have "attr_token [(el_earth, a), (el_water, b), (el_fire, c), (el_wind, d)] tok
          = Inr [(el_earth, a), (el_water, b), (el_fire, ?v), (el_wind, d)]" by simp
      with assms \<open>0 \<le> ?v\<close> show ?thesis by blast
    next
      assume "dict_set [(el_earth, a), (el_water, b), (el_fire, c), (el_wind, d)] [el] ?v
         = [(el_earth, a), (el_water, b), (el_fire, c), (el_wind, ?v)]"
      with eq have "attr_token [(el_earth, a), (el_water, b), (el_fire, c), (el_wind, d)] tok
          = Inr [(el_earth, a), (el_water, b), (el_fire, c), (el_wind, ?v)]" by simp
      with assms \<open>0 \<le> ?v\<close> show ?thesis by blast
    qed
  qed
qed

lemma attr_tokens_shape:
  assumes "0 \<le> a" "0 \<le> b" "0 \<le> c" "0 \<le> d"
  shows "attr_tokens [(el_earth, a), (el_water, b), (el_fire, c), (el_wind, d)] toks = Inl ValueError \<or>
         (\<exists>a' b' c' d'. 0 \<le> a' \<and> 0 \<le> b' \<and> 0 \<le> c' \<and> 0 \<le> d' \<and>
           attr_tokens [(el_earth, a), (el_water, b), (el_fire, c), (el_wind, d)] toks
             = Inr [(el_earth, a'), (el_water, b'), (el_fire, c'), (el_wind, d')])"
  using assms
proof (induction toks arbitrary: a b c d)
  case Nil
  then show ?case by simp
next
  case (Cons tok toks)
  from attr_token_shape[OF Cons.prems, of tok] show ?case
  proof
    assume "attr_token [(el_earth, a), (el_water, b), (el_fire, c), (el_wind, d)] tok = Inl ValueError"
    then show ?thesis by (simp add: and_then_def)
  next
    assume "\<exists>a' b' c' d'. 0 \<le> a' \<and> 0 \<le> b' \<and> 0 \<le> c' \<and> 0 \<le> d' \<and>
           attr_token [(el_earth, a), (el_water, b), (el_fire, c), (el_wind, d)] tok
             = Inr [(el_earth, a'), (el_water, b'), (el_fire, c'), (el_wind, d')]"
    then obtain a1 b1 c1 d1 where
      p: "0 \<le> a1" "0 \<le> b1" "0 \<le> c1" "0 \<le> d1"
      and t: "attr_token [(el_earth, a), (el_water, b), (el_fire, c), (el_wind, d)] tok
               = Inr [(el_earth, a1), (el_water, b1), (el_fire, c1), (el_wind, d1)]" by blast
    from Cons.IH[OF p] t show ?thesis by (simp add: and_then_def)
  qed
qed

lemma parse_attr_shape:
  assumes "parse_attr line = Some x"
  shows "x = Inl ValueError \<or>
         (\<exists>a b c d. 0 \<le> a \<and> 0 \<le> b \<and> 0 \<le> c \<and> 0 \<le> d \<and>
           x = Inr [(el_earth, a), (el_water, b), (el_fire, c), (el_wind, d)])"
proof -
  from assms obtain m where m: "re_search ATTR_SEG_RE line = Some m"
    and x: "x = (case group m ''1'' of
                  None \<Rightarrow> Inl AttributeError
                | Some seg \<Rightarrow>
                    attr_tokens [(el_earth, 0), (el_water, 0), (el_fire, 0), (el_wind, 0)] (split seg))"
    by (auto simp: parse_attr_def split: option.splits)
  from seg_groups[OF m] obtain seg where "m = [(''1'', seg)]" by blast
  with x have "x = attr_tokens [(el_earth, 0), (el_water, 0), (el_fire, 0), (el_wind, 0)] (split seg)"
    by (simp add: group_def)
  with attr_tokens_shape[of 0 0 0 0 "split seg"] show ?thesis by simp
qed

lemma parse_attr_block:
  assumes "parse_attr line = Some (Inr x)"
  shows "\<exists>a b c d. 0 \<le> a \<and> 0 \<le> b \<and> 0 \<le> c \<and> 0 \<le> d \<and>
           x = [(el_earth, a), (el_water, b), (el_fire, c), (el_wind, d)]"
  using parse_attr_shape[OF assms] by simp

lemma on_attr_eq:
  assumes "parse_attr line = Some (Inr [(el_earth, a), (el_water, b), (el_fire, c), (el_wind, d)])"
    and "0 \<le> a" "0 \<le> b" "0 \<le> c" "0 \<le> d"
  shows "on_attr line r =
     Inr (if a = 0 \<and> b = 0 \<and> c = 0 \<and> d = 0 then r
          else dict_set r k_attr
                 (JDict [(el_earth, JInt a), (el_water, JInt b), (el_fire, JInt c), (el_wind, JInt d)]))"
proof (cases "a = 0 \<and> b = 0 \<and> c = 0 \<and> d = 0")
  case True
  with assms(1) show ?thesis by (simp add: on_attr_def and_then_def)
next
  case False
  with assms(2-5) have "0 < a \<or> 0 < b \<or> 0 < c \<or> 0 < d" by arith
  with assms(1) False show ?thesis by (auto simp: on_attr_def and_then_def)
qed

lemma on_attr_cases:
  "on_attr line r = Inl ValueError \<or>
   (\<exists>r'. on_attr line r = Inr r' \<and>
     (r' = r \<or>
      (\<exists>a b c d. 0 \<le> a \<and> 0 \<le> b \<and> 0 \<le> c \<and> 0 \<le> d \<and> (0 < a \<or> 0 < b \<or> 0 < c \<or> 0 < d) \<and>
         r' = dict_set r k_attr
                (JDict [(el_earth, JInt a), (el_water, JInt b), (el_fire, JInt c), (el_wind, JInt d)]))))"
proof (cases "parse_attr line")
  case None
  then show ?thesis by (simp add: on_attr_def)
next
  case (Some x)
  from parse_attr_shape[OF Some] show ?thesis
  proof
    assume "x = Inl ValueError"
    with Some show ?thesis by (simp add: on_attr_def and_then_def)
  next
    assume "\<exists>a b c d. 0 \<le> a \<and> 0 \<le> b \<and> 0 \<le> c \<and> 0 \<le> d \<and>
           x = Inr [(el_earth, a), (el_water, b), (el_fire, c), (el_wind, d)]"
    then obtain a b c d where
      p: "0 \<le> a" "0 \<le> b" "0 \<le> c" "0 \<le> d"
      and x: "x = Inr [(el_earth, a), (el_water, b), (el_fire, c), (el_wind, d)]" by blast
    note eq = on_attr_eq[OF Some[unfolded x] p, of r]
    show ?thesis
    proof (cases "a = 0 \<and> b = 0 \<and> c = 0 \<and> d = 0")
      case True
      with eq show ?thesis by simp
    next
      case False
      with p have "0 < a \<or> 0 < b \<or> 0 < c \<or> 0 < d" by arith
      with eq False p show ?thesis by auto
    qed
  qed
qed

lemma on_route_cases:
  "\<exists>r'. on_route line r = Inr r' \<and> (r' = r \<or> (\<exists>t. r' = dict_set r k_route (JStr t)))"
proof (cases "re_search ROUTE_RE line")
  case None
  then show ?thesis by (simp add: on_route_def)
next
  case (Some m)
  from route_groups[OF Some] obtain t where "m = [(''1'', t)]" by blast
  with Some have "on_route line r = Inr (dict_set r k_route (JStr (strip t)))"
    by (simp add: on_route_def group_def)
  then show ?thesis by blast
qed

subsection \<open>The record invariant\<close>

lemma record_ok_new: "record_ok n [(k_name, JStr n)]"
  by (simp add: record_ok_def dict_get_def key_simps)

lemma record_ok_grade: "record_ok n r \<Longrightarrow> record_ok n (dict_set r k_grade (JStr g))"
  unfolding record_ok_def
  by (simp add: dict_get_set set_keys_dict_set key_simps)

lemma record_ok_route: "record_ok n r \<Longrightarrow> record_ok n (dict_set r k_route (JStr t))"
  unfolding record_ok_def
  by (simp add: dict_get_set set_keys_dict_set key_simps)

lemma record_ok_s0:
  "record_ok n r \<Longrightarrow>
   record_ok n (dict_set r k_s0 (JDict [(k_atk, JInt a), (k_def, JInt d), (k_agi, JInt g), (k_hp, JInt h)]))"
  unfolding record_ok_def
  by (simp add: dict_get_set set_keys_dict_set ascii_simps)

lemma record_ok_sg:
  "record_ok n r \<Longrightarrow>
   record_ok n (dict_set r k_sg (JDict [(k_atk, JFloat a), (k_def, JFloat d), (k_agi, JFloat g), (k_hp, JFloat h)]))"
  unfolding record_ok_def
  by (simp add: dict_get_set set_keys_dict_set ascii_simps)

lemma record_ok_attr:
  "record_ok n r \<Longrightarrow> 0 \<le> a \<Longrightarrow> 0 \<le> b \<Longrightarrow> 0 \<le> c \<Longrightarrow> 0 \<le> d \<Longrightarrow> 0 < a \<or> 0 < b \<or> 0 < c \<or> 0 < d \<Longrightarrow>
   record_ok n (dict_set r k_attr
      (JDict [(el_earth, JInt a), (el_water, JInt b), (el_fire, JInt c), (el_wind, JInt d)]))"
  unfolding record_ok_def
  by (simp add: dict_get_set set_keys_dict_set ascii_simps)

lemma on_init_ok:
  assumes "record_ok n r" "re_search INIT_RE line = Some m"
  shows "on_init m r = Inl ValueError \<or> (\<exists>r'. on_init m r = Inr r' \<and> record_ok n r')"
proof -
  from on_init_eq[OF assms(2), of r] obtain a d g h where
    e: "on_init m r =
             (if length a \<le> max_str_digits \<and> length d \<le> max_str_digits \<and>
                 length g \<le> max_str_digits \<and> length h \<le> max_str_digits
              then setdefault_update r k_s0
                     [(k_atk, JInt (int (digits_value a))), (k_def, JInt (int (digits_value d))),
                      (k_agi, JInt (int (digits_value g))), (k_hp, JInt (int (digits_value h)))]
              else Inl ValueError)" by blast
  have "dict_get r k_s0 = None \<or>
     (\<exists>a0 d0 g0 h0. dict_get r k_s0 = Some (JDict [(k_atk, a0), (k_def, d0), (k_agi, g0), (k_hp, h0)]))"
    using assms(1) unfolding record_ok_def by blast
  from setdefault_update_stats[OF this] e record_ok_s0[OF assms(1)] show ?thesis
    by (cases "length a \<le> max_str_digits \<and> length d \<le> max_str_digits \<and>
                 length g \<le> max_str_digits \<and> length h \<le> max_str_digits") simp_all
qed

lemma on_grow_ok:
  assumes "record_ok n r" "re_search GROW_RE line = Some m"
  shows "\<exists>r'. on_grow m r = Inr r' \<and> record_ok n r'"
proof -
  from on_grow_eq[OF assms(2), of r] obtain a d g h where
    e: "on_grow m r = setdefault_update r k_sg
          [(k_atk, JFloat a), (k_def, JFloat d), (k_agi, JFloat g), (k_hp, JFloat h)]" by blast
  have "dict_get r k_sg = None \<or>
     (\<exists>a0 d0 g0 h0. dict_get r k_sg = Some (JDict [(k_atk, a0), (k_def, d0), (k_agi, g0), (k_hp, h0)]))"
    using assms(1) unfolding record_ok_def by blast
  from setdefault_update_stats[OF this] e record_ok_sg[OF assms(1)] show ?thesis by simp
qed

lemma on_attr_ok:
  assumes "record_ok n r"
  shows "on_attr line r = Inl ValueError \<or> (\<exists>r'. on_attr line r = Inr r' \<and> record_ok n r')"
proof -
  from on_attr_cases[of line r] show ?thesis
  proof
    assume "on_attr line r = Inl ValueError"
    then show ?thesis by simp
  next
    assume "\<exists>r'. on_attr line r = Inr r' \<and>
     (r' = r \<or>
      (\<exists>a b c d. 0 \<le> a \<and> 0 \<le> b \<and> 0 \<le> c \<and> 0 \<le> d \<and> (0 < a \<or> 0 < b \<or> 0 < c \<or> 0 < d) \<and>
         r' = dict_set r k_attr
                (JDict [(el_earth, JInt a), (el_water, JInt b), (el_fire, JInt c), (el_wind, JInt d)])))"
    then obtain r' where
      r': "on_attr line r = Inr r'"
      and c: "r' = r \<or>
        (\<exists>a b c d. 0 \<le> a \<and> 0 \<le> b \<and> 0 \<le> c \<and> 0 \<le> d \<and> (0 < a \<or> 0 < b \<or> 0 < c \<or> 0 < d) \<and>
           r' = dict_set r k_attr
                  (JDict [(el_earth, JInt a), (el_water, JInt b), (el_fire, JInt c), (el_wind, JInt d)]))"
      by blast
    from c have "record_ok n r'"
    proof
      assume "r' = r" with assms show ?thesis by simp
    next
      assume "\<exists>a b c d. 0 \<le> a \<and> 0 \<le> b \<and> 0 \<le> c \<and> 0 \<le> d \<and> (0 < a \<or> 0 < b \<or> 0 < c \<or> 0 < d) \<and>
           r' = dict_set r k_attr
                  (JDict [(el_earth, JInt a), (el_water, JInt b), (el_fire, JInt c), (el_wind, JInt d)])"
      then obtain a b c d where "0 \<le> a" "0 \<le> b" "0 \<le> c" "0 \<le> d" "0 < a \<or> 0 < b \<or> 0 < c \<or> 0 < d"
        "r' = dict_set r k_attr
                  (JDict [(el_earth, JInt a), (el_water, JInt b), (el_fire, JInt c), (el_wind, JInt d)])"
        by blast
      with record_ok_attr[OF assms, of a b c d] show ?thesis by simp
    qed
    with r' show ?thesis by blast
  qed
qed

lemma on_route_ok:
  assumes "record_ok n r"
  shows "\<exists>r'. on_route line r = Inr r' \<and> record_ok n r'"
proof -
  from on_route_cases[of line r] obtain r' where
    r': "on_route line r = Inr r'" and c: "r' = r \<or> (\<exists>t. r' = dict_set r k_route (JStr t))" by blast
  from c assms have "record_ok n r'" by (auto simp: record_ok_route)
  with r' show ?thesis by blast
qed

lemma on_field_line_ok:
  assumes "record_ok n r"
  shows "on_field_line line r = Inl ValueError \<or>
         (\<exists>r'. on_field_line line r = Inr r' \<and> record_ok n r')"
proof (cases "re_search INIT_RE line")
  case (Some m)
  with on_init_ok[OF assms Some] show ?thesis by (simp add: on_field_line_def)
next
  case None
  show ?thesis
  proof (cases "re_search GROW_RE line")
    case (Some m)
    with None on_grow_ok[OF assms Some] show ?thesis by (simp add: on_field_line_def)
  next
    case g: None
    show ?thesis
    proof (cases "contains s_skill line \<and> contains s_attribute line")
      case True
      have f: "on_field_line line r = and_then (on_attr line r) (on_route line)"
        using True None g by (simp add: on_field_line_def)
      from on_attr_ok[OF assms, of line] show ?thesis
      proof
        assume "on_attr line r = Inl ValueError"
        with f show ?thesis by (simp add: and_then_def)
      next
        assume "\<exists>r'. on_attr line r = Inr r' \<and> record_ok n r'"
        then obtain r1 where r1: "on_attr line r = Inr r1" "record_ok n r1" by blast
        from on_route_ok[OF r1(2), of line] obtain r2 where
          r2: "on_route line r1 = Inr r2" "record_ok n r2" by blast
        from f r1(1) r2(1) have "on_field_line line r = Inr r2" by (simp add: and_then_def)
        with r2(2) show ?thesis by simp
      qed
    next
      case False
      then have "on_field_line line r = Inr r"
        using None g by (auto simp: on_field_line_def)
      with assms show ?thesis by simp
    qed
  qed
qed

lemma mutate_Some: "dict_get ps n = Some r \<Longrightarrow> f r = Inr r' \<Longrightarrow> mutate n f ps = Inr (dict_set ps n r')"
  by (simp add: mutate_def and_then_def)

lemma mutate_None: "dict_get ps n = None \<Longrightarrow> mutate n f ps = Inr ps"
  by (simp add: mutate_def)

lemma mutate_Error: "dict_get ps n = Some r \<Longrightarrow> f r = Inl e \<Longrightarrow> mutate n f ps = Inl e"
  by (simp add: mutate_def and_then_def)

lemma on_header_eq:
  assumes "group m ''name'' = Some nm"
  shows "on_header st m =
     Inr \<lparr>pets = dict_set (pets st) (strip nm)
              (let r0 = (case dict_get (pets st) (strip nm) of
                           None \<Rightarrow> [(k_name, JStr (strip nm))] | Some r \<Rightarrow> r)
               in if group m ''grade'' \<noteq> None \<or> \<not> dict_has r0 k_grade
                  then dict_set r0 k_grade (JStr (grade_digit_to_str (group m ''grade''))) else r0),
          current = Some (strip nm)\<rparr>"
proof (cases "dict_get (pets st) (strip nm)")
  case None
  let ?f = "\<lambda>r. Inr (if group m ''grade'' \<noteq> None \<or> \<not> dict_has r k_grade
                       then dict_set r k_grade (JStr (grade_digit_to_str (group m ''grade''))) else r)
              :: py_error + pydict"
  let ?p1 = "dict_set (pets st) (strip nm) [(k_name, JStr (strip nm))]"
  have nh: "\<not> dict_has (pets st) (strip nm)" using None by (simp add: dict_has_iff)
  have g: "dict_get ?p1 (strip nm) = Some [(k_name, JStr (strip nm))]" by (simp add: dict_get_set)
  have "mutate (strip nm) ?f ?p1 = Inr (dict_set ?p1 (strip nm)
          (if group m ''grade'' \<noteq> None \<or> \<not> dict_has [(k_name, JStr (strip nm))] k_grade
           then dict_set [(k_name, JStr (strip nm))] k_grade (JStr (grade_digit_to_str (group m ''grade'')))
           else [(k_name, JStr (strip nm))]))"
    by (rule mutate_Some[OF g]) simp
  then show ?thesis using assms None nh
    by (simp add: on_header_def Let_def and_then_def dict_set_twice)
next
  case (Some r)
  let ?f = "\<lambda>r. Inr (if group m ''grade'' \<noteq> None \<or> \<not> dict_has r k_grade
                       then dict_set r k_grade (JStr (grade_digit_to_str (group m ''grade''))) else r)
              :: py_error + pydict"
  have h: "dict_has (pets st) (strip nm)" using Some by (simp add: dict_has_iff)
  have "mutate (strip nm) ?f (pets st) = Inr (dict_set (pets st) (strip nm)
          (if group m ''grade'' \<noteq> None \<or> \<not> dict_has r k_grade
           then dict_set r k_grade (JStr (grade_digit_to_str (group m ''grade''))) else r))"
    by (rule mutate_Some[OF Some]) simp
  then show ?thesis using assms Some h
    by (simp add: on_header_def Let_def and_then_def)
qed

lemma header_name_SomeD:
  assumes "header_name raw = Some name"
  obtains m nm where "strip raw \<noteq> []" "re_match HEADER_RE (strip raw) = Some m"
    "group m ''name'' = Some nm" "name = strip nm" "header_digit raw = group m ''grade''"
  using assms
  by (auto simp: header_name_def header_digit_def split: if_splits option.splits)

lemma header_name_NoneD:
  assumes "header_name raw = None"
  shows "strip raw = [] \<or> re_match HEADER_RE (strip raw) = None"
proof (rule ccontr)
  assume "\<not> ?thesis"
  then obtain m where m: "strip raw \<noteq> []" "re_match HEADER_RE (strip raw) = Some m" by auto
  from header_groups[OF m(2)] obtain nm where "group m ''name'' = Some nm"
    by (auto simp: group_def)
  with m assms show False by (simp add: header_name_def)
qed

lemma parse_line_header:
  assumes "header_name raw = Some name"
  shows "parse_line st raw =
     Inr \<lparr>pets = dict_set (pets st) name
              (let r0 = (case dict_get (pets st) name of None \<Rightarrow> [(k_name, JStr name)] | Some r \<Rightarrow> r)
               in if header_digit raw \<noteq> None \<or> \<not> dict_has r0 k_grade
                  then dict_set r0 k_grade (JStr (grade_digit_to_str (header_digit raw))) else r0),
          current = Some name\<rparr>"
proof -
  from assms obtain m nm where m: "strip raw \<noteq> []" "re_match HEADER_RE (strip raw) = Some m"
    "group m ''name'' = Some nm" "name = strip nm" "header_digit raw = group m ''grade''"
    by (rule header_name_SomeD)
  have "parse_line st raw = on_header st m" using m(1,2) by (simp add: parse_line_def)
  then show ?thesis unfolding m(4) m(5) by (simp only: on_header_eq[OF m(3), of st])
qed

lemma parse_line_field:
  assumes "header_name raw = None"
  shows "parse_line st raw =
     (if strip raw = [] then Inr st
      else case current st of
             None \<Rightarrow> Inr st
           | Some name \<Rightarrow> and_then (mutate name (on_field_line (strip raw)) (pets st))
                             (\<lambda>ps. Inr (st\<lparr>pets := ps\<rparr>)))"
  using header_name_NoneD[OF assms] by (auto simp: parse_line_def Let_def)

subsection \<open>The state invariant\<close>

lemma state_ok_init: "state_ok init_state"
  by (simp add: state_ok_def init_state_def dict_get_def)

lemma pets_ok_set:
  assumes "distinct (map fst ps)" "\<forall>k r. dict_get ps k = Some r \<longrightarrow> record_ok k r" "record_ok n r'"
  shows "distinct (map fst (dict_set ps n r'))"
    and "\<forall>k r. dict_get (dict_set ps n r') k = Some r \<longrightarrow> record_ok k r"
    and "dict_has (dict_set ps n r') n"
  using assms by (simp_all add: distinct_dict_set dict_get_set dict_has_iff)

lemma parse_line_ok:
  assumes "state_ok st"
  shows "parse_line st raw = Inl ValueError \<or> (\<exists>st'. parse_line st raw = Inr st' \<and> state_ok st')"
proof (cases "header_name raw")
  case (Some name)
  let ?r0 = "case dict_get (pets st) name of None \<Rightarrow> [(k_name, JStr name)] | Some r \<Rightarrow> r"
  let ?r' = "if header_digit raw \<noteq> None \<or> \<not> dict_has ?r0 k_grade
             then dict_set ?r0 k_grade (JStr (grade_digit_to_str (header_digit raw))) else ?r0"
  have "record_ok name ?r0"
  proof (cases "dict_get (pets st) name")
    case None
    then show ?thesis by (simp add: record_ok_new)
  next
    case (Some r)
    with assms show ?thesis by (simp add: state_ok_def)
  qed
  then have ok: "record_ok name ?r'" by (simp add: record_ok_grade)
  from assms have d: "distinct (map fst (pets st))"
    and a: "\<forall>k r. dict_get (pets st) k = Some r \<longrightarrow> record_ok k r"
    by (simp_all add: state_ok_def)
  note s = pets_ok_set[OF d a ok]
  have "state_ok \<lparr>pets = dict_set (pets st) name ?r', current = Some name\<rparr>"
    unfolding state_ok_def using s by simp
  with parse_line_header[OF Some, of st] show ?thesis by (simp add: Let_def)
next
  case None
  note eq = parse_line_field[OF None, of st]
  show ?thesis
  proof (cases "strip raw = [] \<or> current st = None")
    case True
    with eq assms show ?thesis by auto
  next
    case False
    then obtain name where cur: "strip raw \<noteq> []" "current st = Some name" by auto
    with assms have "dict_has (pets st) name" by (simp add: state_ok_def)
    then obtain r where r: "dict_get (pets st) name = Some r" by (auto simp: dict_has_iff)
    with assms have "record_ok name r" by (simp add: state_ok_def)
    from on_field_line_ok[OF this, of "strip raw"] show ?thesis
    proof
      assume "on_field_line (strip raw) r = Inl ValueError"
      from mutate_Error[where f = "on_field_line (strip raw)", OF r this] eq cur
      show ?thesis by (simp add: and_then_def)
    next
      assume "\<exists>r'. on_field_line (strip raw) r = Inr r' \<and> record_ok name r'"
      then obtain r' where
        r': "on_field_line (strip raw) r = Inr r'" "record_ok name r'" by blast
      have p: "parse_line st raw = Inr (st\<lparr>pets := dict_set (pets st) name r'\<rparr>)"
        using eq cur mutate_Some[where f = "on_field_line (strip raw)", OF r r'(1)]
        by (simp add: and_then_def)
      from assms have d: "distinct (map fst (pets st))"
        and a: "\<forall>k r. dict_get (pets st) k = Some r \<longrightarrow> record_ok k r"
        by (simp_all add: state_ok_def)
      note s = pets_ok_set[OF d a r'(2)]
      have "state_ok (st\<lparr>pets := dict_set (pets st) name r'\<rparr>)"
        unfolding state_ok_def using s cur by simp
      with p show ?thesis by blast
    qed
  qed
qed

lemma parse_lines_ok:
  "state_ok st \<Longrightarrow> parse_lines st ls = Inl ValueError \<or> (\<exists>st'. parse_lines st ls = Inr st' \<and> state_ok st')"
proof (induction ls arbitrary: st)
  case Nil
  then show ?case by simp
next
  case (Cons raw ls)
  from parse_line_ok[OF Cons.prems, of raw] show ?case
  proof
    assume "parse_line st raw = Inl ValueError"
    then show ?thesis by (simp add: and_then_def)
  next
    assume "\<exists>st'. parse_line st raw = Inr st' \<and> state_ok st'"
    then obtain st1 where st1: "parse_line st raw = Inr st1" "state_ok st1" by blast
    from Cons.IH[OF st1(2)] st1(1) show ?thesis by (simp add: and_then_def)
  qed
qed

lemma parse_line_inv: "state_ok st \<Longrightarrow> parse_line st raw = Inr st' \<Longrightarrow> state_ok st'"
  using parse_line_ok[of st raw] by auto

lemma parse_lines_inv: "state_ok st \<Longrightarrow> parse_lines st ls = Inr st' \<Longrightarrow> state_ok st'"
  using parse_lines_ok[of st ls] by auto

lemma parse_lines_append:
  "parse_lines st (xs @ ys) = and_then (parse_lines st xs) (\<lambda>st'. parse_lines st' ys)"
proof (induction xs arbitrary: st)
  case Nil
  then show ?case by (simp add: and_then_def)
next
  case (Cons x xs)
  then show ?case by (cases "parse_line st x") (simp_all add: and_then_def)
qed

subsection \<open>Grades\<close>

lemma grade_after_header:
  assumes "header_name raw = Some name"
  shows "\<exists>st'. parse_line st raw = Inr st' \<and> current st' = Some name \<and>
           grade_of st' name =
             (if header_digit raw \<noteq> None \<or> grade_of st name = None
              then Some (JStr (grade_digit_to_str (header_digit raw)))
              else grade_of st name)"
proof -
  let ?r0 = "case dict_get (pets st) name of None \<Rightarrow> [(k_name, JStr name)] | Some r \<Rightarrow> r"
  let ?r' = "if header_digit raw \<noteq> None \<or> \<not> dict_has ?r0 k_grade
             then dict_set ?r0 k_grade (JStr (grade_digit_to_str (header_digit raw))) else ?r0"
  let ?st' = "\<lparr>pets = dict_set (pets st) name ?r', current = Some name\<rparr>"
  have p: "parse_line st raw = Inr ?st'"
    using parse_line_header[OF assms, of st] by (simp add: Let_def)
  have g0: "dict_get ?r0 k_grade = grade_of st name"
    by (cases "dict_get (pets st) name") (simp_all add: grade_of_def dict_get_def ascii_simps)
  have "grade_of ?st' name = dict_get ?r' k_grade"
    by (simp add: grade_of_def dict_get_set)
  also have "\<dots> = (if header_digit raw \<noteq> None \<or> grade_of st name = None
              then Some (JStr (grade_digit_to_str (header_digit raw)))
              else grade_of st name)"
    using g0 by (simp add: dict_has_iff dict_get_set)
  finally show ?thesis using p by simp
qed

lemma grade_digit_to_str_simps:
  "grade_digit_to_str (Some [49]) = g_top"
  "grade_digit_to_str (Some [50]) = g_high"
  "d \<noteq> Some [49] \<Longrightarrow> d \<noteq> Some [50] \<Longrightarrow> grade_digit_to_str d = g_normal"
  by (simp_all add: grade_digit_to_str_def)

lemma parse_lines_snoc:
  assumes "parse_lines st ls = Inr s"
  shows "parse_lines st (ls @ [raw]) = parse_line s raw"
  by (cases "parse_line s raw") (simp_all add: parse_lines_append assms and_then_def)

lemma parse_lines_snocD:
  assumes "parse_lines st (ls @ [raw]) = Inr s'"
  obtains s where "parse_lines st ls = Inr s" "parse_line s raw = Inr s'"
proof (cases "parse_lines st ls")
  case (Inl e)
  with assms show ?thesis by (simp add: parse_lines_append and_then_def)
next
  case (Inr s)
  with assms parse_lines_snoc[OF Inr, of raw] that show ?thesis by simp
qed

lemma parse_chat_Inr:
  "parse_chat text = Inr ps \<longleftrightarrow> (\<exists>st. parse_lines init_state (splitlines text) = Inr st \<and> ps = pets st)"
  by (cases "parse_lines init_state (splitlines text)") (auto simp: parse_chat_def and_then_def)

text \<open>The scan returns, or it ends with the \<open>ValueError\<close> of \<open>int\<close>.\<close>

lemma parse_chat_returns_or_raises:
  "(\<exists>ps. parse_chat text = Inr ps) \<or> parse_chat text = Inl ValueError"
  using parse_lines_ok[OF state_ok_init, of "splitlines text"]
  by (auto simp: parse_chat_def and_then_def)

subsection \<open>The keys of \<open>pets\<close>\<close>

lemma dict_set_grows: "fst ` set r \<subseteq> fst ` set (dict_set r k v)"
  by (simp add: set_keys_dict_set subset_insertI)

lemma dict_set_append: "k \<notin> fst ` set d \<Longrightarrow> dict_set d k v = d @ [(k, v)]"
  by (induction d) auto

lemma mutate_keys:
  assumes "mutate n f ps = Inr ps'"
  shows "map fst ps' = map fst ps"
proof (cases "dict_get ps n")
  case None
  with assms show ?thesis by (simp add: mutate_None)
next
  case (Some r)
  then have "n \<in> set (map fst ps)" using dict_has_iff[of ps n] by (simp add: dict_has_def)
  moreover from assms Some obtain r' where "ps' = dict_set ps n r'"
    by (cases "f r") (auto simp: mutate_def and_then_def)
  ultimately show ?thesis by (simp add: keys_dict_set)
qed

lemma parse_line_keys:
  assumes "parse_line st raw = Inr st'"
  shows "map fst (pets st') =
     (case header_name raw of
        None \<Rightarrow> map fst (pets st)
      | Some n \<Rightarrow> if n \<in> set (map fst (pets st)) then map fst (pets st) else map fst (pets st) @ [n])"
proof (cases "header_name raw")
  case (Some n)
  from parse_line_header[OF Some, of st] assms Some show ?thesis
    by (auto simp: keys_dict_set)
next
  case None
  from parse_line_field[OF None, of st] assms have "map fst (pets st') = map fst (pets st)"
    by (auto simp: and_then_def split: if_splits option.splits sum.splits dest: mutate_keys)
  with None show ?thesis by simp
qed

lemma parse_lines_keys:
  assumes "parse_lines st ls = Inr st'"
  shows "map fst (pets st') =
     fold (\<lambda>n ks. if n \<in> set ks then ks else ks @ [n]) (List.map_filter header_name ls) (map fst (pets st))"
  using assms
proof (induction ls arbitrary: st)
  case Nil
  then show ?case by (simp add: List.map_filter_simps)
next
  case (Cons raw ls)
  from Cons.prems obtain s where s: "parse_line st raw = Inr s" "parse_lines s ls = Inr st'"
    by (cases "parse_line st raw") (simp_all add: and_then_def)
  from Cons.IH[OF s(2)] parse_line_keys[OF s(1)] show ?case
    by (cases "header_name raw") (simp_all add: List.map_filter_simps)
qed

lemma first_seen:
  "fold (\<lambda>n ks. if n \<in> set ks then ks else ks @ [n]) ns [] = rev (remdups (rev ns))"
proof (induction ns rule: rev_induct)
  case Nil
  then show ?case by simp
next
  case (snoc x xs)
  then show ?case by simp
qed

subsection \<open>What one line changes\<close>

lemma setdefault_update_shape:
  "setdefault_update r k e = Inr r' \<Longrightarrow> \<exists>v. r' = dict_set r k v"
  by (auto simp: setdefault_update_def split: option.splits json.splits)

lemma on_init_shape: "on_init m r = Inr r' \<Longrightarrow> \<exists>v. r' = dict_set r k_s0 v"
  by (auto simp: on_init_def and_then_def split: sum.splits dest: setdefault_update_shape)

lemma on_grow_shape: "on_grow m r = Inr r' \<Longrightarrow> \<exists>v. r' = dict_set r k_sg v"
  by (auto simp: on_grow_def and_then_def split: sum.splits dest: setdefault_update_shape)

lemma on_field_line_grows:
  assumes "on_field_line line r = Inr r'"
  shows "fst ` set r \<subseteq> fst ` set r'"
proof (cases "re_search INIT_RE line")
  case (Some m)
  with assms have "on_init m r = Inr r'" by (simp add: on_field_line_def)
  from on_init_shape[OF this] obtain v where "r' = dict_set r k_s0 v" by blast
  then show ?thesis by (simp add: dict_set_grows)
next
  case None
  show ?thesis
  proof (cases "re_search GROW_RE line")
    case (Some m)
    with None assms have "on_grow m r = Inr r'" by (simp add: on_field_line_def)
    from on_grow_shape[OF this] obtain v where "r' = dict_set r k_sg v" by blast
    then show ?thesis by (simp add: dict_set_grows)
  next
    case g: None
    show ?thesis
    proof (cases "contains s_skill line \<and> contains s_attribute line")
      case True
      have f: "on_field_line line r = and_then (on_attr line r) (on_route line)"
        using True None g by (simp add: on_field_line_def)
      with assms obtain r1 where r1: "on_attr line r = Inr r1"
        by (cases "on_attr line r") (simp_all add: and_then_def)
      with on_attr_cases[of line r] have c1: "r1 = r \<or> (\<exists>v. r1 = dict_set r k_attr v)"
        by auto
      from c1 have k1: "fst ` set r \<subseteq> fst ` set r1"
      proof
        assume "r1 = r" then show ?thesis by simp
      next
        assume "\<exists>v. r1 = dict_set r k_attr v"
        then obtain v where "r1 = dict_set r k_attr v" by blast
        then show ?thesis by (simp add: dict_set_grows)
      qed
      from on_route_cases[of line r1] obtain r2 where
        r2: "on_route line r1 = Inr r2" and c2: "r2 = r1 \<or> (\<exists>t. r2 = dict_set r1 k_route (JStr t))"
        by blast
      from c2 have k2: "fst ` set r1 \<subseteq> fst ` set r2"
      proof
        assume "r2 = r1" then show ?thesis by simp
      next
        assume "\<exists>t. r2 = dict_set r1 k_route (JStr t)"
        then obtain t where "r2 = dict_set r1 k_route (JStr t)" by blast
        then show ?thesis by (simp add: dict_set_grows)
      qed
      from f r1 r2 assms have "r' = r2" by (simp add: and_then_def)
      with k1 k2 show ?thesis by blast
    next
      case False
      then have "on_field_line line r = Inr r" using None g by (auto simp: on_field_line_def)
      with assms show ?thesis by simp
    qed
  qed
qed

lemma parse_line_changes:
  assumes "parse_line st raw = Inr st'"
  shows "(\<forall>n. Some n \<noteq> current st' \<longrightarrow> dict_get (pets st') n = dict_get (pets st) n) \<and>
         (\<forall>n r. dict_get (pets st) n = Some r \<longrightarrow>
            (\<exists>r'. dict_get (pets st') n = Some r' \<and> set (map fst r) \<subseteq> set (map fst r')))"
proof (cases "header_name raw")
  case (Some name)
  let ?r0 = "case dict_get (pets st) name of None \<Rightarrow> [(k_name, JStr name)] | Some r \<Rightarrow> r"
  let ?r' = "if header_digit raw \<noteq> None \<or> \<not> dict_has ?r0 k_grade
             then dict_set ?r0 k_grade (JStr (grade_digit_to_str (header_digit raw))) else ?r0"
  from parse_line_header[OF Some, of st] assms
  have st': "st' = \<lparr>pets = dict_set (pets st) name ?r', current = Some name\<rparr>"
    by (simp add: Let_def)
  have grow: "fst ` set ?r0 \<subseteq> fst ` set ?r'" by (simp add: dict_set_grows)
  show ?thesis
  proof (intro conjI allI impI)
    fix n assume "Some n \<noteq> current st'"
    then show "dict_get (pets st') n = dict_get (pets st) n" by (simp add: st' dict_get_set)
  next
    fix n r assume r: "dict_get (pets st) n = Some r"
    show "\<exists>r'. dict_get (pets st') n = Some r' \<and> set (map fst r) \<subseteq> set (map fst r')"
    proof (cases "n = name")
      case True
      with r have "?r0 = r" by simp
      with grow True show ?thesis by (simp add: st' dict_get_set)
    next
      case False
      with r show ?thesis by (simp add: st' dict_get_set)
    qed
  qed
next
  case None
  note eq = parse_line_field[OF None, of st]
  show ?thesis
  proof (cases "strip raw = [] \<or> current st = None")
    case True
    then have "parse_line st raw = Inr st" unfolding eq by (auto split: option.splits)
    with assms have "st' = st" by simp
    then show ?thesis by simp
  next
    case False
    then obtain name where cur: "strip raw \<noteq> []" "current st = Some name" by auto
    show ?thesis
    proof (cases "dict_get (pets st) name")
      case None
      with eq cur assms have "st' = st" by (simp add: mutate_None and_then_def)
      then show ?thesis by simp
    next
      case (Some r0)
      from eq cur assms Some obtain r1 where r1: "on_field_line (strip raw) r0 = Inr r1"
        and st': "st' = st\<lparr>pets := dict_set (pets st) name r1\<rparr>"
        by (cases "on_field_line (strip raw) r0") (auto simp: mutate_def and_then_def)
      from on_field_line_grows[OF r1] have grow: "fst ` set r0 \<subseteq> fst ` set r1" .
      show ?thesis
      proof (intro conjI allI impI)
        fix n assume "Some n \<noteq> current st'"
        then show "dict_get (pets st') n = dict_get (pets st) n"
          using cur by (simp add: st' dict_get_set)
      next
        fix n r assume r: "dict_get (pets st) n = Some r"
        show "\<exists>r'. dict_get (pets st') n = Some r' \<and> set (map fst r) \<subseteq> set (map fst r')"
        proof (cases "n = name")
          case True
          with r Some have "r0 = r" by simp
          with grow True show ?thesis by (simp add: st' dict_get_set)
        next
          case False
          with r show ?thesis by (simp add: st' dict_get_set)
        qed
      qed
    qed
  qed
qed

lemma parse_line_creates:
  assumes "header_name raw = Some name" "dict_get (pets st) name = None"
  shows "\<exists>st'. parse_line st raw = Inr st' \<and>
           pets st' = pets st @ [(name, [(k_name, JStr name),
                                        (k_grade, JStr (grade_digit_to_str (header_digit raw)))])]"
proof -
  have "name \<notin> fst ` set (pets st)" using assms(2) by (simp add: dict_get_def map_of_eq_None_iff)
  then have app: "\<And>v. dict_set (pets st) name v = pets st @ [(name, v)]"
    by (rule dict_set_append)
  show ?thesis
    using parse_line_header[OF assms(1), of st] assms(2)
    by (simp add: Let_def dict_has_def ascii_simps app)
qed

subsection \<open>Idempotence of the stat lines\<close>

lemma stats_update_idem:
  "dict_update (dict_update d [(k_atk, a), (k_def, b), (k_agi, c), (k_hp, h)])
     [(k_atk, a), (k_def, b), (k_agi, c), (k_hp, h)]
   = dict_update d [(k_atk, a), (k_def, b), (k_agi, c), (k_hp, h)]"
proof -
  let ?D = "dict_set (dict_set (dict_set (dict_set d k_atk a) k_def b) k_agi c) k_hp h"
  have D: "dict_update d [(k_atk, a), (k_def, b), (k_agi, c), (k_hp, h)] = ?D"
    by (simp add: dict_update_def)
  have g: "dict_get ?D k_atk = Some a" "dict_get ?D k_def = Some b"
    "dict_get ?D k_agi = Some c" "dict_get ?D k_hp = Some h"
    by (simp_all add: dict_get_set key_simps)
  have "dict_update ?D [(k_atk, a), (k_def, b), (k_agi, c), (k_hp, h)]
      = dict_set (dict_set (dict_set (dict_set ?D k_atk a) k_def b) k_agi c) k_hp h"
    by (simp add: dict_update_def)
  also have "\<dots> = ?D"
    by (simp only: dict_set_same[OF g(1)] dict_set_same[OF g(2)] dict_set_same[OF g(3)]
        dict_set_same[OF g(4)])
  finally show ?thesis by (simp only: D)
qed

lemma setdefault_update_idem:
  assumes "setdefault_update r k [(k_atk, a), (k_def, b), (k_agi, c), (k_hp, h)] = Inr r'"
  shows "setdefault_update r' k [(k_atk, a), (k_def, b), (k_agi, c), (k_hp, h)] = Inr r'"
proof -
  let ?e = "[(k_atk, a), (k_def, b), (k_agi, c), (k_hp, h)]"
  from assms obtain d where r': "r' = dict_set r k (JDict (dict_update d ?e))"
    by (auto simp: setdefault_update_def split: option.splits json.splits)
  then have g: "dict_get r' k = Some (JDict (dict_update d ?e))" by (simp add: dict_get_set)
  then have "setdefault_update r' k ?e = Inr (dict_set r' k (JDict (dict_update (dict_update d ?e) ?e)))"
    by (simp add: setdefault_update_def)
  also have "\<dots> = Inr (dict_set r' k (JDict (dict_update d ?e)))"
    by (simp only: stats_update_idem)
  also have "\<dots> = Inr r'" by (simp only: dict_set_same[OF g])
  finally show ?thesis .
qed

lemma on_init_idem: "on_init m r = Inr r' \<Longrightarrow> on_init m r' = Inr r'"
  by (auto simp: on_init_def and_then_def split: sum.splits intro: setdefault_update_idem)

lemma on_grow_idem: "on_grow m r = Inr r' \<Longrightarrow> on_grow m r' = Inr r'"
  by (auto simp: on_grow_def and_then_def split: sum.splits intro: setdefault_update_idem)

lemma stat_line_field:
  assumes "is_init_line raw \<or> is_grow_line raw"
  shows "header_name raw = None" "strip raw \<noteq> []"
    "on_field_line (strip raw) r = Inr r' \<Longrightarrow> on_field_line (strip raw) r' = Inr r'"
proof -
  from assms show "header_name raw = None" "strip raw \<noteq> []"
    by (auto simp: is_init_line_def is_grow_line_def header_name_def)
  assume f: "on_field_line (strip raw) r = Inr r'"
  from assms show "on_field_line (strip raw) r' = Inr r'"
  proof
    assume "is_init_line raw"
    then obtain m where m: "re_search INIT_RE (strip raw) = Some m"
      by (auto simp: is_init_line_def)
    with f have "on_init m r = Inr r'" by (simp add: on_field_line_def)
    from on_init_idem[OF this] m show ?thesis by (simp add: on_field_line_def)
  next
    assume "is_grow_line raw"
    then obtain m where m: "re_search INIT_RE (strip raw) = None" "re_search GROW_RE (strip raw) = Some m"
      by (auto simp: is_grow_line_def)
    with f have "on_grow m r = Inr r'" by (simp add: on_field_line_def)
    from on_grow_idem[OF this] m show ?thesis by (simp add: on_field_line_def)
  qed
qed

lemma stat_line_step_idem:
  assumes "is_init_line raw \<or> is_grow_line raw" "parse_line st raw = Inr st'"
  shows "parse_line st' raw = Inr st'"
proof -
  note h = stat_line_field[OF assms(1)]
  note eq = parse_line_field[OF h(1)]
  show ?thesis
  proof (cases "current st")
    case None
    with eq[of st] h(2) assms(2) have "st' = st" by simp
    with eq[of st] h(2) None show ?thesis by simp
  next
    case (Some name)
    show ?thesis
    proof (cases "dict_get (pets st) name")
      case None
      with eq[of st] h(2) Some assms(2) have s: "st' = st" by (simp add: mutate_None and_then_def)
      show ?thesis unfolding s using eq[of st] h(2) Some None by (simp add: mutate_None and_then_def)
    next
      case r: (Some r)
      from eq[of st] h(2) Some assms(2) r obtain r' where
        r': "on_field_line (strip raw) r = Inr r'" and st': "st' = st\<lparr>pets := dict_set (pets st) name r'\<rparr>"
        by (cases "on_field_line (strip raw) r") (auto simp: mutate_def and_then_def)
      have g: "dict_get (pets st') name = Some r'" by (simp add: st' dict_get_set)
      have c: "current st' = Some name" using Some by (simp add: st')
      have "mutate name (on_field_line (strip raw)) (pets st') = Inr (dict_set (pets st') name r')"
        by (rule mutate_Some[where f = "on_field_line (strip raw)", OF g h(3)[OF r']])
      also have "dict_set (pets st') name r' = pets st'" by (rule dict_set_same[OF g])
      finally show ?thesis using eq[of st'] h(2) c by (simp add: and_then_def)
    qed
  qed
qed

subsection \<open>What a line does to the state, by the kind of the line\<close>

lemma field_of_set:
  "field_of (st\<lparr>pets := dict_set (pets st) n r\<rparr>) m k = (if m = n then dict_get r k else field_of st m k)"
  by (simp add: field_of_def dict_get_set)

lemma on_route_Inr:
  assumes "on_route line r = Inr r'"
  shows "(re_search ROUTE_RE line = None \<and> r' = r) \<or>
         (\<exists>t. re_search ROUTE_RE line = Some [(''1'', t)] \<and> r' = dict_set r k_route (JStr (strip t)))"
proof (cases "re_search ROUTE_RE line")
  case None
  with assms show ?thesis by (simp add: on_route_def)
next
  case (Some m)
  from route_groups[OF Some] obtain t where m: "m = [(''1'', t)]" by blast
  with Some assms have "r' = dict_set r k_route (JStr (strip t))"
    by (simp add: on_route_def group_def)
  with Some m show ?thesis by simp
qed

lemma on_attr_Inr:
  assumes "on_attr line r = Inr r'"
  shows "(parse_attr line = None \<and> r' = r) \<or>
         (\<exists>a b c d. 0 \<le> a \<and> 0 \<le> b \<and> 0 \<le> c \<and> 0 \<le> d \<and>
            parse_attr line = Some (Inr [(el_earth, a), (el_water, b), (el_fire, c), (el_wind, d)]) \<and>
            r' = (if a = 0 \<and> b = 0 \<and> c = 0 \<and> d = 0 then r
                  else dict_set r k_attr
                         (JDict [(el_earth, JInt a), (el_water, JInt b), (el_fire, JInt c),
                                 (el_wind, JInt d)])))"
proof (cases "parse_attr line")
  case None
  with assms show ?thesis by (simp add: on_attr_def)
next
  case (Some x)
  from parse_attr_shape[OF Some] show ?thesis
  proof
    assume "x = Inl ValueError"
    with Some assms show ?thesis by (simp add: on_attr_def and_then_def)
  next
    assume "\<exists>a b c d. 0 \<le> a \<and> 0 \<le> b \<and> 0 \<le> c \<and> 0 \<le> d \<and>
           x = Inr [(el_earth, a), (el_water, b), (el_fire, c), (el_wind, d)]"
    then obtain a b c d where
      p: "0 \<le> a" "0 \<le> b" "0 \<le> c" "0 \<le> d"
      and x: "x = Inr [(el_earth, a), (el_water, b), (el_fire, c), (el_wind, d)]" by blast
    note eq = on_attr_eq[OF Some[unfolded x] p, of r]
    with assms have "r' = (if a = 0 \<and> b = 0 \<and> c = 0 \<and> d = 0 then r
                  else dict_set r k_attr
                         (JDict [(el_earth, JInt a), (el_water, JInt b), (el_fire, JInt c),
                                 (el_wind, JInt d)]))" by simp
    with p Some x show ?thesis by blast
  qed
qed

lemma parse_line_skip:
  assumes "header_name raw = None" "strip raw = [] \<or> current st = None"
  shows "parse_line st raw = Inr st"
  using parse_line_field[OF assms(1), of st] assms(2) by auto

lemma field_line_step:
  assumes "state_ok s" "parse_line s raw = Inr s'" "header_name raw = None" "strip raw \<noteq> []"
    "current s = Some c"
  obtains r r' where "dict_get (pets s) c = Some r" "record_ok c r"
    "on_field_line (strip raw) r = Inr r'" "s' = s\<lparr>pets := dict_set (pets s) c r'\<rparr>"
proof -
  from assms(1,5) have "dict_has (pets s) c" by (simp add: state_ok_def)
  then obtain r where r: "dict_get (pets s) c = Some r" by (auto simp: dict_has_iff)
  with assms(1) have ok: "record_ok c r" by (simp add: state_ok_def)
  from parse_line_field[OF assms(3), of s] assms(2,4,5) r obtain r' where
    "on_field_line (strip raw) r = Inr r'" "s' = s\<lparr>pets := dict_set (pets s) c r'\<rparr>"
    by (cases "on_field_line (strip raw) r") (auto simp: mutate_def and_then_def)
  with r ok that show ?thesis by blast
qed

lemma init_line_step:
  assumes "state_ok s" "parse_line s raw = Inr s'" "is_init_line raw" "current s = Some c"
    "dict_get (pets s) c = Some r"
  shows "\<exists>a d g h. re_search INIT_RE (strip raw) = Some [(''hp'', h), (''agi'', g), (''def'', d), (''atk'', a)] \<and>
           s' = s\<lparr>pets := dict_set (pets s) c
                   (dict_set r k_s0
                      (JDict [(k_atk, JInt (int (digits_value a))), (k_def, JInt (int (digits_value d))),
                              (k_agi, JInt (int (digits_value g))), (k_hp, JInt (int (digits_value h)))]))\<rparr>"
proof -
  note h = stat_line_field(1,2)[OF disjI1[OF assms(3)]]
  from assms(1,2) h assms(4) obtain r0 r' where
    r0: "dict_get (pets s) c = Some r0" "record_ok c r0"
    "on_field_line (strip raw) r0 = Inr r'" "s' = s\<lparr>pets := dict_set (pets s) c r'\<rparr>"
    by (rule field_line_step)
  from r0(1) assms(5) have rr: "r0 = r" by simp
  from assms(3) obtain m where m: "re_search INIT_RE (strip raw) = Some m"
    by (auto simp: is_init_line_def)
  with r0(3) have i: "on_init m r = Inr r'" by (simp add: on_field_line_def rr)
  from on_init_eq[OF m, of r] obtain a d g h where
    mm: "m = [(''hp'', h), (''agi'', g), (''def'', d), (''atk'', a)]"
    and e: "on_init m r =
             (if length a \<le> max_str_digits \<and> length d \<le> max_str_digits \<and>
                 length g \<le> max_str_digits \<and> length h \<le> max_str_digits
              then setdefault_update r k_s0
                     [(k_atk, JInt (int (digits_value a))), (k_def, JInt (int (digits_value d))),
                      (k_agi, JInt (int (digits_value g))), (k_hp, JInt (int (digits_value h)))]
              else Inl ValueError)" by blast
  have s0: "dict_get r k_s0 = None \<or>
     (\<exists>a0 d0 g0 h0. dict_get r k_s0 = Some (JDict [(k_atk, a0), (k_def, d0), (k_agi, g0), (k_hp, h0)]))"
    using r0(2) unfolding record_ok_def rr by blast
  from i e have "setdefault_update r k_s0
                     [(k_atk, JInt (int (digits_value a))), (k_def, JInt (int (digits_value d))),
                      (k_agi, JInt (int (digits_value g))), (k_hp, JInt (int (digits_value h)))] = Inr r'"
    by (simp split: if_splits)
  with setdefault_update_stats[OF s0] have "r' = dict_set r k_s0
                      (JDict [(k_atk, JInt (int (digits_value a))), (k_def, JInt (int (digits_value d))),
                              (k_agi, JInt (int (digits_value g))), (k_hp, JInt (int (digits_value h)))])"
    by simp
  with m mm r0(4) show ?thesis by blast
qed

lemma grow_line_step:
  assumes "state_ok s" "parse_line s raw = Inr s'" "is_grow_line raw" "current s = Some c"
    "dict_get (pets s) c = Some r"
  shows "\<exists>a d g h qa qd qg qh.
           re_search GROW_RE (strip raw) = Some [(''hp'', h), (''agi'', g), (''def'', d), (''atk'', a)] \<and>
           py_float (Some a) = Inr qa \<and> py_float (Some d) = Inr qd \<and>
           py_float (Some g) = Inr qg \<and> py_float (Some h) = Inr qh \<and>
           s' = s\<lparr>pets := dict_set (pets s) c
                   (dict_set r k_sg
                      (JDict [(k_atk, JFloat qa), (k_def, JFloat qd), (k_agi, JFloat qg),
                              (k_hp, JFloat qh)]))\<rparr>"
proof -
  note h = stat_line_field(1,2)[OF disjI2[OF assms(3)]]
  from assms(1,2) h assms(4) obtain r0 r' where
    r0: "dict_get (pets s) c = Some r0" "record_ok c r0"
    "on_field_line (strip raw) r0 = Inr r'" "s' = s\<lparr>pets := dict_set (pets s) c r'\<rparr>"
    by (rule field_line_step)
  from r0(1) assms(5) have rr: "r0 = r" by simp
  from assms(3) obtain m where m: "re_search INIT_RE (strip raw) = None"
    "re_search GROW_RE (strip raw) = Some m"
    by (auto simp: is_grow_line_def)
  with r0(3) have i: "on_grow m r = Inr r'" by (simp add: on_field_line_def rr)
  from grow_groups[OF m(2)] obtain a d g h where n:
    "is_number a" "is_number d" "is_number g" "is_number h"
    and mm: "m = [(''hp'', h), (''agi'', g), (''def'', d), (''atk'', a)]" by blast
  from py_float_number[OF n(1)] obtain qa where qa: "py_float (Some a) = Inr qa" by blast
  from py_float_number[OF n(2)] obtain qd where qd: "py_float (Some d) = Inr qd" by blast
  from py_float_number[OF n(3)] obtain qg where qg: "py_float (Some g) = Inr qg" by blast
  from py_float_number[OF n(4)] obtain qh where qh: "py_float (Some h) = Inr qh" by blast
  from mm qa qd qg qh have e: "on_grow m r = setdefault_update r k_sg
      [(k_atk, JFloat qa), (k_def, JFloat qd), (k_agi, JFloat qg), (k_hp, JFloat qh)]"
    by (simp add: on_grow_def group_def and_then_def)
  have sg: "dict_get r k_sg = None \<or>
     (\<exists>a0 d0 g0 h0. dict_get r k_sg = Some (JDict [(k_atk, a0), (k_def, d0), (k_agi, g0), (k_hp, h0)]))"
    using r0(2) unfolding record_ok_def rr by blast
  from setdefault_update_stats[OF sg] i e have "r' = dict_set r k_sg
                      (JDict [(k_atk, JFloat qa), (k_def, JFloat qd), (k_agi, JFloat qg),
                              (k_hp, JFloat qh)])"
    by simp
  with m(2) mm qa qd qg qh r0(4) show ?thesis by blast
qed

lemma is_skill_line_field:
  assumes "is_skill_line raw"
  shows "header_name raw = None" "strip raw \<noteq> []"
    "on_field_line (strip raw) r = and_then (on_attr (strip raw) r) (on_route (strip raw))"
  using assms by (auto simp: is_skill_line_def header_name_def on_field_line_def)

lemma skill_line_step:
  assumes "state_ok s" "parse_line s raw = Inr s'" "is_skill_line raw" "current s = Some c"
    "dict_get (pets s) c = Some r"
  shows "\<exists>r1 r2. on_attr (strip raw) r = Inr r1 \<and> on_route (strip raw) r1 = Inr r2 \<and>
           s' = s\<lparr>pets := dict_set (pets s) c r2\<rparr>"
proof -
  note h = is_skill_line_field[OF assms(3)]
  from assms(1,2) h(1,2) assms(4) obtain r0 r' where
    r0: "dict_get (pets s) c = Some r0" "record_ok c r0"
    "on_field_line (strip raw) r0 = Inr r'" "s' = s\<lparr>pets := dict_set (pets s) c r'\<rparr>"
    by (rule field_line_step)
  from r0(1) assms(5) have rr: "r0 = r" by simp
  from r0(3) have f: "and_then (on_attr (strip raw) r) (on_route (strip raw)) = Inr r'"
    by (simp add: h(3) rr)
  then obtain r1 where r1: "on_attr (strip raw) r = Inr r1"
    by (cases "on_attr (strip raw) r") (simp_all add: and_then_def)
  with f have "on_route (strip raw) r1 = Inr r'" by (simp add: and_then_def)
  with r1 r0(4) show ?thesis by blast
qed

lemma other_line_step:
  assumes "state_ok s" "parse_line s raw = Inr s'" "header_name raw = None"
    "\<not> is_init_line raw" "\<not> is_grow_line raw" "\<not> is_skill_line raw"
  shows "s' = s"
proof (cases "strip raw = [] \<or> current s = None")
  case True
  from parse_line_skip[OF assms(3) True] assms(2) show ?thesis by simp
next
  case False
  then obtain c where c: "strip raw \<noteq> []" "current s = Some c" by auto
  from assms(1,2,3) c obtain r r' where
    r: "dict_get (pets s) c = Some r" "record_ok c r"
    "on_field_line (strip raw) r = Inr r'" "s' = s\<lparr>pets := dict_set (pets s) c r'\<rparr>"
    by (rule field_line_step)
  from header_name_NoneD[OF assms(3)] c(1) have hd: "re_match HEADER_RE (strip raw) = None" by simp
  from assms(4) c(1) hd have i: "re_search INIT_RE (strip raw) = None"
    by (simp add: is_init_line_def)
  from assms(5) c(1) hd i have g: "re_search GROW_RE (strip raw) = None"
    by (simp add: is_grow_line_def)
  from assms(6) c(1) hd i g have "\<not> (contains s_skill (strip raw) \<and> contains s_attribute (strip raw))"
    by (simp add: is_skill_line_def)
  with i g have "on_field_line (strip raw) r = Inr r" by (auto simp: on_field_line_def)
  with r(3) have "r' = r" by simp
  with r(1,4) show ?thesis by (simp add: dict_set_same)
qed


subsection \<open>The attribute block\<close>

lemma positive_four:
  "list_ex (\<lambda>(k, v). v > 0) [(el_earth, a), (el_water, b), (el_fire, c), (el_wind, d)]
     \<longleftrightarrow> 0 < a \<or> 0 < b \<or> 0 < c \<or> (0::int) < d"
  by auto

lemma positive_skill_line_iff:
  "positive_skill_line raw \<longleftrightarrow>
     is_skill_line raw \<and>
     (\<exists>a b c d. 0 \<le> a \<and> 0 \<le> b \<and> 0 \<le> c \<and> 0 \<le> d \<and> (0 < a \<or> 0 < b \<or> 0 < c \<or> 0 < d) \<and>
        parse_attr (strip raw) = Some (Inr [(el_earth, a), (el_water, b), (el_fire, c), (el_wind, d)]))"
proof
  assume p: "positive_skill_line raw"
  then obtain x where x: "parse_attr (strip raw) = Some (Inr x)" "list_ex (\<lambda>(k, v). v > 0) x"
    by (auto simp: positive_skill_line_def split: option.splits sum.splits)
  from parse_attr_block[OF x(1)] obtain a b c d where
    "0 \<le> a" "0 \<le> b" "0 \<le> c" "0 \<le> d" "x = [(el_earth, a), (el_water, b), (el_fire, c), (el_wind, d)]"
    by blast
  moreover with x(2) have "0 < a \<or> 0 < b \<or> 0 < c \<or> 0 < d" by (simp only: positive_four)
  moreover from p have "is_skill_line raw" by (simp add: positive_skill_line_def)
  ultimately show "is_skill_line raw \<and>
     (\<exists>a b c d. 0 \<le> a \<and> 0 \<le> b \<and> 0 \<le> c \<and> 0 \<le> d \<and> (0 < a \<or> 0 < b \<or> 0 < c \<or> 0 < d) \<and>
        parse_attr (strip raw) = Some (Inr [(el_earth, a), (el_water, b), (el_fire, c), (el_wind, d)]))"
    using x(1) by blast
next
  assume "is_skill_line raw \<and>
     (\<exists>a b c d. 0 \<le> a \<and> 0 \<le> b \<and> 0 \<le> c \<and> 0 \<le> d \<and> (0 < a \<or> 0 < b \<or> 0 < c \<or> 0 < d) \<and>
        parse_attr (strip raw) = Some (Inr [(el_earth, a), (el_water, b), (el_fire, c), (el_wind, d)]))"
  then obtain a b c d where s: "is_skill_line raw" and pos: "0 < a \<or> 0 < b \<or> 0 < c \<or> 0 < d"
    and pa: "parse_attr (strip raw) = Some (Inr [(el_earth, a), (el_water, b), (el_fire, c), (el_wind, d)])"
    by blast
  from pos have "list_ex (\<lambda>(k, v). v > 0) [(el_earth, a), (el_water, b), (el_fire, c), (el_wind, d)]"
    by (simp only: positive_four)
  with s pa show "positive_skill_line raw" by (simp add: positive_skill_line_def)
qed

lemma on_route_attr:
  assumes "on_route line r = Inr r'"
  shows "dict_get r' k_attr = dict_get r k_attr"
  using on_route_Inr[OF assms] by (auto simp: dict_get_set ascii_simps)

lemma attr_set:
  assumes "state_ok s" "parse_line s raw = Inr s'" "current s = Some n" "positive_skill_line raw"
  shows "\<exists>a b c d. 0 \<le> a \<and> 0 \<le> b \<and> 0 \<le> c \<and> 0 \<le> d \<and> (0 < a \<or> 0 < b \<or> 0 < c \<or> 0 < d) \<and>
           parse_attr (strip raw) = Some (Inr [(el_earth, a), (el_water, b), (el_fire, c), (el_wind, d)]) \<and>
           field_of s' n k_attr =
             Some (JDict [(el_earth, JInt a), (el_water, JInt b), (el_fire, JInt c), (el_wind, JInt d)])"
proof -
  from assms(4) obtain a b c d where sk: "is_skill_line raw"
    and p: "0 \<le> a" "0 \<le> b" "0 \<le> c" "0 \<le> d" and pos: "0 < a \<or> 0 < b \<or> 0 < c \<or> 0 < d"
    and pa: "parse_attr (strip raw) = Some (Inr [(el_earth, a), (el_water, b), (el_fire, c), (el_wind, d)])"
    unfolding positive_skill_line_iff by blast
  from assms(1,3) have "dict_has (pets s) n" by (simp add: state_ok_def)
  then obtain r where r: "dict_get (pets s) n = Some r" by (auto simp: dict_has_iff)
  from skill_line_step[OF assms(1,2) sk assms(3) r] obtain r1 r2 where
    r1: "on_attr (strip raw) r = Inr r1" and r2: "on_route (strip raw) r1 = Inr r2"
    and s': "s' = s\<lparr>pets := dict_set (pets s) n r2\<rparr>" by blast
  from pos have nz: "\<not> (a = 0 \<and> b = 0 \<and> c = 0 \<and> d = 0)" by auto
  from on_attr_eq[OF pa p, of r] r1 nz have "r1 = dict_set r k_attr
      (JDict [(el_earth, JInt a), (el_water, JInt b), (el_fire, JInt c), (el_wind, JInt d)])"
    by simp
  then have "dict_get r1 k_attr =
      Some (JDict [(el_earth, JInt a), (el_water, JInt b), (el_fire, JInt c), (el_wind, JInt d)])"
    by (simp add: dict_get_set)
  with on_route_attr[OF r2] have "field_of s' n k_attr =
      Some (JDict [(el_earth, JInt a), (el_water, JInt b), (el_fire, JInt c), (el_wind, JInt d)])"
    by (simp add: s' field_of_set)
  with p pos pa show ?thesis by blast
qed

lemma attr_kept:
  assumes "state_ok s" "parse_line s raw = Inr s'" "\<not> (current s = Some n \<and> positive_skill_line raw)"
  shows "field_of s' n k_attr = field_of s n k_attr"
proof (cases "header_name raw")
  case (Some name)
  let ?r0 = "case dict_get (pets s) name of None \<Rightarrow> [(k_name, JStr name)] | Some r \<Rightarrow> r"
  let ?r' = "if header_digit raw \<noteq> None \<or> \<not> dict_has ?r0 k_grade
             then dict_set ?r0 k_grade (JStr (grade_digit_to_str (header_digit raw))) else ?r0"
  from parse_line_header[OF Some, of s] assms(2)
  have s': "s' = \<lparr>pets = dict_set (pets s) name ?r', current = Some name\<rparr>"
    by (simp add: Let_def)
  have "dict_get ?r' k_attr = dict_get ?r0 k_attr" by (simp add: dict_get_set ascii_simps)
  also have "\<dots> = field_of s name k_attr"
    by (cases "dict_get (pets s) name") (simp_all add: field_of_def dict_get_def ascii_simps)
  finally have "dict_get ?r' k_attr = field_of s name k_attr" .
  then show ?thesis unfolding s' by (simp add: field_of_def dict_get_set)
next
  case None
  show ?thesis
  proof (cases "strip raw = [] \<or> current s = None")
    case True
    from parse_line_skip[OF None True] assms(2) show ?thesis by simp
  next
    case False
    then obtain c where c: "strip raw \<noteq> []" "current s = Some c" by auto
    from assms(1) c(2) have "dict_has (pets s) c" by (simp add: state_ok_def)
    then obtain r where r: "dict_get (pets s) c = Some r" by (auto simp: dict_has_iff)
    have fr: "field_of s c k_attr = dict_get r k_attr" using r by (simp add: field_of_def)
    consider (init) "is_init_line raw" | (grow) "is_grow_line raw" | (skill) "is_skill_line raw"
      | (other) "\<not> is_init_line raw" "\<not> is_grow_line raw" "\<not> is_skill_line raw" by blast
    then show ?thesis
    proof cases
      case init
      from init_line_step[OF assms(1,2) init c(2) r] obtain v where
        "s' = s\<lparr>pets := dict_set (pets s) c (dict_set r k_s0 v)\<rparr>" by blast
      then show ?thesis using fr by (simp add: field_of_set dict_get_set ascii_simps)
    next
      case grow
      from grow_line_step[OF assms(1,2) grow c(2) r] obtain v where
        "s' = s\<lparr>pets := dict_set (pets s) c (dict_set r k_sg v)\<rparr>" by blast
      then show ?thesis using fr by (simp add: field_of_set dict_get_set ascii_simps)
    next
      case skill
      from skill_line_step[OF assms(1,2) skill c(2) r] obtain r1 r2 where
        r1: "on_attr (strip raw) r = Inr r1" and r2: "on_route (strip raw) r1 = Inr r2"
        and s': "s' = s\<lparr>pets := dict_set (pets s) c r2\<rparr>" by blast
      show ?thesis
      proof (cases "n = c")
        case False
        then show ?thesis by (simp add: s' field_of_set)
      next
        case True
        with assms(3) c(2) have np: "\<not> positive_skill_line raw" by simp
        from on_attr_Inr[OF r1] have "r1 = r"
        proof
          assume "parse_attr (strip raw) = None \<and> r1 = r"
          then show ?thesis by simp
        next
          assume "\<exists>a b c d. 0 \<le> a \<and> 0 \<le> b \<and> 0 \<le> c \<and> 0 \<le> d \<and>
            parse_attr (strip raw) = Some (Inr [(el_earth, a), (el_water, b), (el_fire, c), (el_wind, d)]) \<and>
            r1 = (if a = 0 \<and> b = 0 \<and> c = 0 \<and> d = 0 then r
                  else dict_set r k_attr
                         (JDict [(el_earth, JInt a), (el_water, JInt b), (el_fire, JInt c),
                                 (el_wind, JInt d)]))"
          then obtain a b c' d where p: "0 \<le> a" "0 \<le> b" "0 \<le> c'" "0 \<le> d"
            and pa: "parse_attr (strip raw) = Some (Inr [(el_earth, a), (el_water, b), (el_fire, c'), (el_wind, d)])"
            and e: "r1 = (if a = 0 \<and> b = 0 \<and> c' = 0 \<and> d = 0 then r
                  else dict_set r k_attr
                         (JDict [(el_earth, JInt a), (el_water, JInt b), (el_fire, JInt c'),
                                 (el_wind, JInt d)]))" by blast
          have "a = 0 \<and> b = 0 \<and> c' = 0 \<and> d = 0"
          proof (rule ccontr)
            assume "\<not> (a = 0 \<and> b = 0 \<and> c' = 0 \<and> d = 0)"
            with p have "0 < a \<or> 0 < b \<or> 0 < c' \<or> 0 < d" by arith
            with skill p pa have "positive_skill_line raw" unfolding positive_skill_line_iff by blast
            with np show False by simp
          qed
          with e show ?thesis by simp
        qed
        with on_route_attr[OF r2] fr True show ?thesis by (simp add: s' field_of_set)
      qed
    next
      case other
      from other_line_step[OF assms(1,2) None other] show ?thesis by simp
    qed
  qed
qed

lemma attr_present_iff:
  assumes "parse_lines init_state ls = Inr st"
  shows "(field_of st n k_attr \<noteq> None) \<longleftrightarrow>
         (\<exists>ls1 raw ls2 s. ls = ls1 @ raw # ls2 \<and> parse_lines init_state ls1 = Inr s \<and>
              current s = Some n \<and> positive_skill_line raw)"
  using assms
proof (induction ls arbitrary: st rule: rev_induct)
  case Nil
  then have "st = init_state" by simp
  then show ?case by (simp add: field_of_def init_state_def dict_get_def)
next
  case (snoc x xs)
  from snoc.prems obtain s0 where s0: "parse_lines init_state xs = Inr s0" "parse_line s0 x = Inr st"
    by (rule parse_lines_snocD)
  have ok: "state_ok s0" by (rule parse_lines_inv[OF state_ok_init s0(1)])
  note IH = snoc.IH[OF s0(1)]
  show ?case
  proof
    assume present: "field_of st n k_attr \<noteq> None"
    show "\<exists>ls1 raw ls2 s. xs @ [x] = ls1 @ raw # ls2 \<and> parse_lines init_state ls1 = Inr s \<and>
              current s = Some n \<and> positive_skill_line raw"
    proof (cases "current s0 = Some n \<and> positive_skill_line x")
      case True
      with s0(1) have "xs @ [x] = xs @ x # [] \<and> parse_lines init_state xs = Inr s0 \<and>
              current s0 = Some n \<and> positive_skill_line x" by simp
      then show ?thesis by blast
    next
      case False
      from attr_kept[OF ok s0(2) False] present have "field_of s0 n k_attr \<noteq> None" by simp
      with IH obtain ls1 raw ls2 s where d: "xs = ls1 @ raw # ls2" "parse_lines init_state ls1 = Inr s"
        "current s = Some n" "positive_skill_line raw" by blast
      from d(1) have "xs @ [x] = ls1 @ raw # (ls2 @ [x])" by simp
      with d(2-4) show ?thesis by blast
    qed
  next
    assume "\<exists>ls1 raw ls2 s. xs @ [x] = ls1 @ raw # ls2 \<and> parse_lines init_state ls1 = Inr s \<and>
              current s = Some n \<and> positive_skill_line raw"
    then obtain ls1 raw ls2 s where d: "xs @ [x] = ls1 @ raw # ls2" "parse_lines init_state ls1 = Inr s"
      "current s = Some n" "positive_skill_line raw" by blast
    show "field_of st n k_attr \<noteq> None"
    proof (cases ls2 rule: rev_cases)
      case Nil
      with d(1) have "xs = ls1" "x = raw" by simp_all
      with d(2-4) s0(1) have "current s0 = Some n" "positive_skill_line x" by simp_all
      from attr_set[OF ok s0(2) this] show ?thesis by auto
    next
      case (snoc ys y)
      with d(1) have xs: "xs = ls1 @ raw # ys" by simp
      with d(2-4) IH have p: "field_of s0 n k_attr \<noteq> None" by blast
      show ?thesis
      proof (cases "current s0 = Some n \<and> positive_skill_line x")
        case True
        then have "current s0 = Some n" "positive_skill_line x" by simp_all
        from attr_set[OF ok s0(2) this] show ?thesis by auto
      next
        case False
        from attr_kept[OF ok s0(2) False] p show ?thesis by simp
      qed
    qed
  qed
qed


lemma parse_line_current:
  assumes "parse_line s raw = Inr s'"
  shows "current s' = (case header_name raw of Some n \<Rightarrow> Some n | None \<Rightarrow> current s)"
proof (cases "header_name raw")
  case (Some n)
  from parse_line_header[OF Some, of s] assms Some show ?thesis by auto
next
  case None
  from parse_line_field[OF None, of s] assms have "current s' = current s"
    by (auto simp: and_then_def split: if_splits option.splits sum.splits)
  with None show ?thesis by simp
qed

lemma header_known_step:
  assumes "parse_line s raw = Inr s'" "header_name raw = Some n" "dict_get (pets s) n = Some r"
  shows "pets s' = dict_set (pets s) n
           (if header_digit raw \<noteq> None \<or> dict_get r k_grade = None
            then dict_set r k_grade (JStr (grade_digit_to_str (header_digit raw))) else r)"
  using parse_line_header[OF assms(2), of s] assms(1,3) by (auto simp: dict_has_iff)

lemma skill_line_data:
  assumes "state_ok s" "parse_line s raw = Inr s'" "is_skill_line raw" "current s = Some n"
    "dict_get (pets s) n = Some r"
  shows "\<exists>r1 r2.
           ((parse_attr (strip raw) = None \<and> r1 = r) \<or>
            (\<exists>a b c d. 0 \<le> a \<and> 0 \<le> b \<and> 0 \<le> c \<and> 0 \<le> d \<and>
               parse_attr (strip raw) = Some (Inr [(el_earth, a), (el_water, b), (el_fire, c), (el_wind, d)]) \<and>
               r1 = (if a = 0 \<and> b = 0 \<and> c = 0 \<and> d = 0 then r
                     else dict_set r k_attr
                            (JDict [(el_earth, JInt a), (el_water, JInt b), (el_fire, JInt c),
                                    (el_wind, JInt d)])))) \<and>
           ((re_search ROUTE_RE (strip raw) = None \<and> r2 = r1) \<or>
            (\<exists>t. re_search ROUTE_RE (strip raw) = Some [(''1'', t)] \<and>
               r2 = dict_set r1 k_route (JStr (strip t)))) \<and>
           pets s' = dict_set (pets s) n r2"
proof -
  from skill_line_step[OF assms] obtain r1 r2 where
    r1: "on_attr (strip raw) r = Inr r1" and r2: "on_route (strip raw) r1 = Inr r2"
    and s': "s' = s\<lparr>pets := dict_set (pets s) n r2\<rparr>" by blast
  from s' have "pets s' = dict_set (pets s) n r2" by simp
  with on_attr_Inr[OF r1] on_route_Inr[OF r2] show ?thesis by blast
qed

subsection \<open>The claims about the Extractor\<close>

lemmas text_eval = strip_def split_def splitlines_def is_space_def is_linebreak_def
  is_digit_def py_decimal_def nd_zeros_def is_element_def is_digits_def digits_value_def

lemmas re_eval = re_match_def group_def lits_def HEADER_RE_def INIT_RE_def GROW_RE_def
  ATTR_SEG_RE_def ATTR_TOKEN_RE_def ROUTE_RE_def number_def
  s_pet_search_def s_grade_def s_initial_def s_level_def s_attack_def s_defense_def
  s_agility_def s_durability_def s_growth_def s_attribute_def s_skill_def s_route_def

lemmas parse_eval = parse_chat_def parse_line_def on_header_def on_field_line_def on_init_def
  on_grow_def on_attr_def parse_attr_def attr_token_def on_route_def mutate_def
  setdefault_update_def and_then_def py_int_def max_str_digits_def py_float_def init_state_def
  grade_digit_to_str_def dict_get_def dict_has_def dict_update_def key_simps
  g_top_def g_high_def g_normal_def header_name_def header_digit_def grade_of_def
  is_init_line_def is_grow_line_def Let_def

lemmas line_eval = is_skill_line_def positive_skill_line_def field_of_def

lemma count_list_distinct: "distinct xs \<Longrightarrow> x \<in> set xs \<Longrightarrow> count_list xs x = 1"
  by (induction xs) (auto simp: count_list_0_iff)

text \<open>
  C1. Let \<open>raw\<close> be a header line announcing \<open>name\<close>. Whatever the state \<open>st\<close> of the scan,
  the line is processed without error, \<open>name\<close> becomes the current record, and its grade
  afterwards is the tier of the header's digit if the header has a digit or the record had
  no grade, and the grade it had otherwise. So a header without a digit keeps an
  established grade, and a header with a digit other than \<open>1\<close> and \<open>2\<close> sets the normal tier.
  Whenever the lines \<open>ls\<close> of a log have been read, into a state \<open>s\<close>, reading the header
  as the next line is that step from \<open>s\<close>. The tiers: \<open>1\<close> is top, \<open>2\<close> is high, any other
  digit or none is normal.
\<close>

theorem header_grade:
  assumes "header_name raw = Some name"
  shows "(\<exists>st'. parse_line st raw = Inr st' \<and> current st' = Some name \<and>
            grade_of st' name =
              (if header_digit raw \<noteq> None \<or> grade_of st name = None
               then Some (JStr (grade_digit_to_str (header_digit raw)))
               else grade_of st name) \<and>
            (header_digit raw = None \<and> grade_of st name \<noteq> None \<longrightarrow>
               grade_of st' name = grade_of st name) \<and>
            (header_digit raw \<noteq> None \<and> header_digit raw \<noteq> Some [49] \<and> header_digit raw \<noteq> Some [50] \<longrightarrow>
               grade_of st' name = Some (JStr g_normal))) \<and>
         (\<forall>s. parse_lines init_state ls = Inr s \<longrightarrow>
               parse_lines init_state (ls @ [raw]) = parse_line s raw) \<and>
         grade_digit_to_str (Some [49]) = g_top \<and>
         grade_digit_to_str (Some [50]) = g_high \<and>
         (\<forall>d. d \<noteq> Some [49] \<and> d \<noteq> Some [50] \<longrightarrow> grade_digit_to_str d = g_normal)"
proof (intro conjI)
  from grade_after_header[OF assms, of st] obtain st' where
    st': "parse_line st raw = Inr st'" "current st' = Some name"
    "grade_of st' name =
              (if header_digit raw \<noteq> None \<or> grade_of st name = None
               then Some (JStr (grade_digit_to_str (header_digit raw)))
               else grade_of st name)" by blast
  have a: "header_digit raw = None \<and> grade_of st name \<noteq> None \<longrightarrow>
               grade_of st' name = grade_of st name"
    using st'(3) by simp
  have b: "header_digit raw \<noteq> None \<and> header_digit raw \<noteq> Some [49] \<and> header_digit raw \<noteq> Some [50] \<longrightarrow>
               grade_of st' name = Some (JStr g_normal)"
    using st'(3) by (simp add: grade_digit_to_str_def)
  from st' a b show "\<exists>st'. parse_line st raw = Inr st' \<and> current st' = Some name \<and>
            grade_of st' name =
              (if header_digit raw \<noteq> None \<or> grade_of st name = None
               then Some (JStr (grade_digit_to_str (header_digit raw)))
               else grade_of st name) \<and>
            (header_digit raw = None \<and> grade_of st name \<noteq> None \<longrightarrow>
               grade_of st' name = grade_of st name) \<and>
            (header_digit raw \<noteq> None \<and> header_digit raw \<noteq> Some [49] \<and> header_digit raw \<noteq> Some [50] \<longrightarrow>
               grade_of st' name = Some (JStr g_normal))"
    by blast
next
  show "\<forall>s. parse_lines init_state ls = Inr s \<longrightarrow>
               parse_lines init_state (ls @ [raw]) = parse_line s raw"
    by (intro allI impI) (rule parse_lines_snoc)
qed (simp_all add: grade_digit_to_str_def)

theorem header_grade_witness:
  "header_name ([91, 97, 93, 32] @ s_pet_search) = Some [97] \<and>
   header_digit ([91, 97, 93, 32] @ s_pet_search) = None \<and>
   grade_of \<lparr>pets = [([97], [(k_name, JStr [97]), (k_grade, JStr g_top)])], current = None\<rparr> [97]
     = Some (JStr g_top) \<and>
   parse_line \<lparr>pets = [([97], [(k_name, JStr [97]), (k_grade, JStr g_top)])], current = None\<rparr>
       ([91, 97, 93, 32] @ s_pet_search)
     = Inr \<lparr>pets = [([97], [(k_name, JStr [97]), (k_grade, JStr g_top)])], current = Some [97]\<rparr> \<and>
   header_digit ([91, 97, 93, 91, 51] @ s_grade @ [93] @ s_pet_search) = Some [51] \<and>
   parse_line \<lparr>pets = [([97], [(k_name, JStr [97]), (k_grade, JStr g_top)])], current = None\<rparr>
       ([91, 97, 93, 91, 51] @ s_grade @ [93] @ s_pet_search)
     = Inr \<lparr>pets = [([97], [(k_name, JStr [97]), (k_grade, JStr g_normal)])], current = Some [97]\<rparr> \<and>
   parse_lines init_state [[91, 97, 93, 91, 49] @ s_grade @ [93] @ s_pet_search]
     = Inr \<lparr>pets = [([97], [(k_name, JStr [97]), (k_grade, JStr g_top)])], current = Some [97]\<rparr> \<and>
   parse_lines init_state [[91, 97, 93, 91, 49] @ s_grade @ [93] @ s_pet_search,
                           [91, 97, 93, 32] @ s_pet_search]
     = Inr \<lparr>pets = [([97], [(k_name, JStr [97]), (k_grade, JStr g_top)])], current = Some [97]\<rparr>"
proof -
  have h: "header_name ([91, 97, 93, 32] @ s_pet_search) = Some [97]"
    by (simp add: header_name_def text_eval re_eval)
  show ?thesis
    using h header_grade[OF h,
        of "\<lparr>pets = [([97], [(k_name, JStr [97]), (k_grade, JStr g_top)])], current = None\<rparr>"
           "[[91, 97, 93, 91, 49] @ s_grade @ [93] @ s_pet_search]"]
    by (simp add: parse_eval text_eval re_eval)
qed

text \<open>
  C4. Whenever \<open>parse_chat\<close> returns (the scan ends with \<open>ValueError\<close> when \<open>int\<close> refuses
  a figure of more than 4300 digits), the keys of its mapping are the names of the header
  lines, each exactly once, in the order of their first header, and the record under a
  name carries that name.
  Line by line, when the lines \<open>ls\<close> have been read into the state \<open>s\<close> and the next line
  \<open>raw\<close> leads to \<open>s'\<close>: a header for a new name appends one record holding the name and
  the grade of that header; a header for a known name and every other line leave the keys
  as they are; only the current record can change; no record ever loses a field. A header
  makes its name current and, for a known name, changes at most the grade of its record,
  in place; any other line leaves \<open>current\<close> as it is, and \<open>current\<close> always names a
  record of the mapping. A base-stat line stores the four integers of its groups as \<open>s0\<close>
  of the current record, a growth-stat line the four floats of its groups as \<open>sg\<close>, a
  skill line its attribute block (if a value is positive) as \<open>attr\<close> and its route (if it
  has one) as \<open>route\<close>, each time in the record that is stored under the current name,
  at its place; a line of no kind, or a line read before the first header, changes nothing.
\<close>

theorem header_names_once:
  "(\<forall>ps. parse_chat text = Inr ps \<longrightarrow>
       map fst ps = rev (remdups (rev (List.map_filter header_name (splitlines text)))) \<and>
       (\<forall>n\<in>set (List.map_filter header_name (splitlines text)). count_list (map fst ps) n = 1) \<and>
       (\<forall>n r. dict_get ps n = Some r \<longrightarrow> dict_get r k_name = Some (JStr n))) \<and>
   (\<forall>s s'. parse_lines init_state ls = Inr s \<and> parse_lines init_state (ls @ [raw]) = Inr s' \<longrightarrow>
       (\<forall>n. header_name raw = Some n \<and> dict_get (pets s) n = None \<longrightarrow>
            pets s' = pets s @ [(n, [(k_name, JStr n),
                                     (k_grade, JStr (grade_digit_to_str (header_digit raw)))])]) \<and>
       (\<forall>n. header_name raw = Some n \<and> dict_get (pets s) n \<noteq> None \<longrightarrow>
            map fst (pets s') = map fst (pets s)) \<and>
       (header_name raw = None \<longrightarrow> map fst (pets s') = map fst (pets s)) \<and>
       (\<forall>n. Some n \<noteq> current s' \<longrightarrow> dict_get (pets s') n = dict_get (pets s) n) \<and>
       (\<forall>n r. dict_get (pets s) n = Some r \<longrightarrow>
            (\<exists>r'. dict_get (pets s') n = Some r' \<and> set (map fst r) \<subseteq> set (map fst r'))) \<and>
       (\<forall>n. header_name raw = Some n \<longrightarrow> current s' = Some n) \<and>
       (header_name raw = None \<longrightarrow> current s' = current s) \<and>
       (\<forall>n. current s = Some n \<longrightarrow> (\<exists>r. dict_get (pets s) n = Some r)) \<and>
       (\<forall>n r. header_name raw = Some n \<and> dict_get (pets s) n = Some r \<longrightarrow>
            pets s' = dict_set (pets s) n
              (if header_digit raw \<noteq> None \<or> dict_get r k_grade = None
               then dict_set r k_grade (JStr (grade_digit_to_str (header_digit raw))) else r)) \<and>
       (\<forall>n r. current s = Some n \<and> dict_get (pets s) n = Some r \<and> is_init_line raw \<longrightarrow>
            (\<exists>a d g h.
               re_search INIT_RE (strip raw) = Some [(''hp'', h), (''agi'', g), (''def'', d), (''atk'', a)] \<and>
               pets s' = dict_set (pets s) n
                 (dict_set r k_s0
                    (JDict [(k_atk, JInt (int (digits_value a))), (k_def, JInt (int (digits_value d))),
                            (k_agi, JInt (int (digits_value g))), (k_hp, JInt (int (digits_value h)))])))) \<and>
       (\<forall>n r. current s = Some n \<and> dict_get (pets s) n = Some r \<and> is_grow_line raw \<longrightarrow>
            (\<exists>a d g h qa qd qg qh.
               re_search GROW_RE (strip raw) = Some [(''hp'', h), (''agi'', g), (''def'', d), (''atk'', a)] \<and>
               py_float (Some a) = Inr qa \<and> py_float (Some d) = Inr qd \<and>
               py_float (Some g) = Inr qg \<and> py_float (Some h) = Inr qh \<and>
               pets s' = dict_set (pets s) n
                 (dict_set r k_sg
                    (JDict [(k_atk, JFloat qa), (k_def, JFloat qd), (k_agi, JFloat qg),
                            (k_hp, JFloat qh)])))) \<and>
       (\<forall>n r. current s = Some n \<and> dict_get (pets s) n = Some r \<and> is_skill_line raw \<longrightarrow>
            (\<exists>r1 r2.
               ((parse_attr (strip raw) = None \<and> r1 = r) \<or>
                (\<exists>a b c d. 0 \<le> a \<and> 0 \<le> b \<and> 0 \<le> c \<and> 0 \<le> d \<and>
                   parse_attr (strip raw) =
                     Some (Inr [(el_earth, a), (el_water, b), (el_fire, c), (el_wind, d)]) \<and>
                   r1 = (if a = 0 \<and> b = 0 \<and> c = 0 \<and> d = 0 then r
                         else dict_set r k_attr
                                (JDict [(el_earth, JInt a), (el_water, JInt b), (el_fire, JInt c),
                                        (el_wind, JInt d)])))) \<and>
               ((re_search ROUTE_RE (strip raw) = None \<and> r2 = r1) \<or>
                (\<exists>t. re_search ROUTE_RE (strip raw) = Some [(''1'', t)] \<and>
                   r2 = dict_set r1 k_route (JStr (strip t)))) \<and>
               pets s' = dict_set (pets s) n r2)) \<and>
       (header_name raw = None \<and>
          (current s = None \<or> (\<not> is_init_line raw \<and> \<not> is_grow_line raw \<and> \<not> is_skill_line raw)) \<longrightarrow>
          s' = s))"
proof (intro conjI allI impI)
  fix ps assume p: "parse_chat text = Inr ps"
  let ?names = "List.map_filter header_name (splitlines text)"
  from p obtain st where st: "parse_lines init_state (splitlines text) = Inr st" and ps: "ps = pets st"
    by (auto simp: parse_chat_Inr)
  have ok: "state_ok st" by (rule parse_lines_inv[OF state_ok_init st])
  show keys: "map fst ps = rev (remdups (rev ?names))"
    using parse_lines_keys[OF st] by (simp add: ps init_state_def first_seen)
  show "\<forall>n\<in>set ?names. count_list (map fst ps) n = 1"
  proof
    fix n assume "n \<in> set ?names"
    then have "n \<in> set (map fst ps)" by (simp add: keys)
    moreover have "distinct (map fst ps)" using ok by (simp add: state_ok_def ps)
    ultimately show "count_list (map fst ps) n = 1" by (simp add: count_list_distinct)
  qed
  fix n r assume "dict_get ps n = Some r"
  with ok show "dict_get r k_name = Some (JStr n)" by (simp add: state_ok_def record_ok_def ps)
next
  fix s s' assume a: "parse_lines init_state ls = Inr s \<and> parse_lines init_state (ls @ [raw]) = Inr s'"
  then have s: "parse_lines init_state ls = Inr s" by simp
  have ok: "state_ok s" by (rule parse_lines_inv[OF state_ok_init s])
  from a parse_lines_snoc[OF s, of raw] have s': "parse_line s raw = Inr s'" by simp
  note k = parse_line_keys[OF s']
  note ch = parse_line_changes[OF s']
  note cur = parse_line_current[OF s']
  {
    fix n assume "header_name raw = Some n \<and> dict_get (pets s) n = None"
    with parse_line_creates[of raw n s] s'
    show "pets s' = pets s @ [(n, [(k_name, JStr n),
                                     (k_grade, JStr (grade_digit_to_str (header_digit raw)))])]"
      by auto
  next
    fix n assume "header_name raw = Some n \<and> dict_get (pets s) n \<noteq> None"
    with k dict_has_iff[of "pets s" n] show "map fst (pets s') = map fst (pets s)"
      by (auto simp: dict_has_def)
  next
    assume "header_name raw = None"
    with k show "map fst (pets s') = map fst (pets s)" by simp
  next
    fix n assume "Some n \<noteq> current s'"
    with ch show "dict_get (pets s') n = dict_get (pets s) n" by blast
  next
    fix n r assume "dict_get (pets s) n = Some r"
    with ch show "\<exists>r'. dict_get (pets s') n = Some r' \<and> set (map fst r) \<subseteq> set (map fst r')" by blast
  next
    fix n assume "header_name raw = Some n"
    with cur show "current s' = Some n" by simp
  next
    assume "header_name raw = None"
    with cur show "current s' = current s" by simp
  next
    fix n assume "current s = Some n"
    with ok have "dict_has (pets s) n" by (simp add: state_ok_def)
    then show "\<exists>r. dict_get (pets s) n = Some r" by (auto simp: dict_has_iff)
  next
    fix n r assume "header_name raw = Some n \<and> dict_get (pets s) n = Some r"
    then have "header_name raw = Some n" "dict_get (pets s) n = Some r" by simp_all
    from header_known_step[OF s' this]
    show "pets s' = dict_set (pets s) n
              (if header_digit raw \<noteq> None \<or> dict_get r k_grade = None
               then dict_set r k_grade (JStr (grade_digit_to_str (header_digit raw))) else r)" .
  next
    fix n r assume "current s = Some n \<and> dict_get (pets s) n = Some r \<and> is_init_line raw"
    then have h: "is_init_line raw" "current s = Some n" "dict_get (pets s) n = Some r" by simp_all
    from init_line_step[OF ok s' h] obtain a d g h where
      "re_search INIT_RE (strip raw) = Some [(''hp'', h), (''agi'', g), (''def'', d), (''atk'', a)]"
      "s' = s\<lparr>pets := dict_set (pets s) n
                 (dict_set r k_s0
                    (JDict [(k_atk, JInt (int (digits_value a))), (k_def, JInt (int (digits_value d))),
                            (k_agi, JInt (int (digits_value g))), (k_hp, JInt (int (digits_value h)))]))\<rparr>"
      by blast
    then have "re_search INIT_RE (strip raw) = Some [(''hp'', h), (''agi'', g), (''def'', d), (''atk'', a)] \<and>
               pets s' = dict_set (pets s) n
                 (dict_set r k_s0
                    (JDict [(k_atk, JInt (int (digits_value a))), (k_def, JInt (int (digits_value d))),
                            (k_agi, JInt (int (digits_value g))), (k_hp, JInt (int (digits_value h)))]))"
      by simp
    then show "\<exists>a d g h.
               re_search INIT_RE (strip raw) = Some [(''hp'', h), (''agi'', g), (''def'', d), (''atk'', a)] \<and>
               pets s' = dict_set (pets s) n
                 (dict_set r k_s0
                    (JDict [(k_atk, JInt (int (digits_value a))), (k_def, JInt (int (digits_value d))),
                            (k_agi, JInt (int (digits_value g))), (k_hp, JInt (int (digits_value h)))]))"
      by blast
  next
    fix n r assume "current s = Some n \<and> dict_get (pets s) n = Some r \<and> is_grow_line raw"
    then have h: "is_grow_line raw" "current s = Some n" "dict_get (pets s) n = Some r" by simp_all
    from grow_line_step[OF ok s' h] obtain a d g h qa qd qg qh where
      "re_search GROW_RE (strip raw) = Some [(''hp'', h), (''agi'', g), (''def'', d), (''atk'', a)]"
      "py_float (Some a) = Inr qa" "py_float (Some d) = Inr qd"
      "py_float (Some g) = Inr qg" "py_float (Some h) = Inr qh"
      "s' = s\<lparr>pets := dict_set (pets s) n
                 (dict_set r k_sg
                    (JDict [(k_atk, JFloat qa), (k_def, JFloat qd), (k_agi, JFloat qg),
                            (k_hp, JFloat qh)]))\<rparr>"
      by blast
    then have "re_search GROW_RE (strip raw) = Some [(''hp'', h), (''agi'', g), (''def'', d), (''atk'', a)] \<and>
               py_float (Some a) = Inr qa \<and> py_float (Some d) = Inr qd \<and>
               py_float (Some g) = Inr qg \<and> py_float (Some h) = Inr qh \<and>
               pets s' = dict_set (pets s) n
                 (dict_set r k_sg
                    (JDict [(k_atk, JFloat qa), (k_def, JFloat qd), (k_agi, JFloat qg),
                            (k_hp, JFloat qh)]))"
      by simp
    then show "\<exists>a d g h qa qd qg qh.
               re_search GROW_RE (strip raw) = Some [(''hp'', h), (''agi'', g), (''def'', d), (''atk'', a)] \<and>
               py_float (Some a) = Inr qa \<and> py_float (Some d) = Inr qd \<and>
               py_float (Some g) = Inr qg \<and> py_float (Some h) = Inr qh \<and>
               pets s' = dict_set (pets s) n
                 (dict_set r k_sg
                    (JDict [(k_atk, JFloat qa), (k_def, JFloat qd), (k_agi, JFloat qg),
                            (k_hp, JFloat qh)]))"
      by blast
  next
    fix n r assume "current s = Some n \<and> dict_get (pets s) n = Some r \<and> is_skill_line raw"
    then have h: "is_skill_line raw" "current s = Some n" "dict_get (pets s) n = Some r" by simp_all
    from skill_line_data[OF ok s' h]
    show "\<exists>r1 r2.
               ((parse_attr (strip raw) = None \<and> r1 = r) \<or>
                (\<exists>a b c d. 0 \<le> a \<and> 0 \<le> b \<and> 0 \<le> c \<and> 0 \<le> d \<and>
                   parse_attr (strip raw) =
                     Some (Inr [(el_earth, a), (el_water, b), (el_fire, c), (el_wind, d)]) \<and>
                   r1 = (if a = 0 \<and> b = 0 \<and> c = 0 \<and> d = 0 then r
                         else dict_set r k_attr
                                (JDict [(el_earth, JInt a), (el_water, JInt b), (el_fire, JInt c),
                                        (el_wind, JInt d)])))) \<and>
               ((re_search ROUTE_RE (strip raw) = None \<and> r2 = r1) \<or>
                (\<exists>t. re_search ROUTE_RE (strip raw) = Some [(''1'', t)] \<and>
                   r2 = dict_set r1 k_route (JStr (strip t)))) \<and>
               pets s' = dict_set (pets s) n r2" .
  next
    assume h: "header_name raw = None \<and>
          (current s = None \<or> (\<not> is_init_line raw \<and> \<not> is_grow_line raw \<and> \<not> is_skill_line raw))"
    then have hn: "header_name raw = None" by simp
    from h show "s' = s"
    proof (elim conjE disjE)
      assume "current s = None"
      with parse_line_skip[OF hn, of s] s' show ?thesis by simp
    next
      assume "\<not> is_init_line raw" "\<not> is_grow_line raw" "\<not> is_skill_line raw"
      from other_line_step[OF ok s' hn this] show ?thesis .
    qed
  }
qed

theorem header_names_once_witness:
  "parse_chat ([91, 97, 93] @ s_pet_search @ [10] @
               s_initial @ [58] @ s_level @ [49, 44] @ s_attack @ [49, 48, 44] @ s_defense @ [53, 44] @
                 s_agility @ [55, 44] @ s_durability @ [50, 48] @ [10] @
               s_growth @ [58] @ s_attack @ [49, 46, 53, 44] @ s_defense @ [50, 44] @ s_agility @
                 [51, 44] @ s_growth @ [57, 44] @ s_durability @ [52] @ [10] @
               s_skill @ [44] @ s_attribute @ [58] @ el_fire @ [54, 32] @ el_water @ [48, 44] @
                 s_route @ [58, 114] @ [10] @
               [91, 98, 93, 91, 49] @ s_grade @ [93] @ s_pet_search @ [10, 120, 10] @
               [91, 97, 93, 91, 50] @ s_grade @ [93] @ s_pet_search)
     = Inr [([97], [(k_name, JStr [97]), (k_grade, JStr g_high),
                    (k_s0, JDict [(k_atk, JInt 10), (k_def, JInt 5), (k_agi, JInt 7), (k_hp, JInt 20)]),
                    (k_sg, JDict [(k_atk, JFloat (3 / 2)), (k_def, JFloat 2), (k_agi, JFloat 3),
                                  (k_hp, JFloat 4)]),
                    (k_attr, JDict [(el_earth, JInt 0), (el_water, JInt 0), (el_fire, JInt 6),
                                    (el_wind, JInt 0)]),
                    (k_route, JStr [114])]),
            ([98], [(k_name, JStr [98]), (k_grade, JStr g_top)])] \<and>
   List.map_filter header_name
     (splitlines ([91, 97, 93] @ s_pet_search @ [10] @
               s_initial @ [58] @ s_level @ [49, 44] @ s_attack @ [49, 48, 44] @ s_defense @ [53, 44] @
                 s_agility @ [55, 44] @ s_durability @ [50, 48] @ [10] @
               s_growth @ [58] @ s_attack @ [49, 46, 53, 44] @ s_defense @ [50, 44] @ s_agility @
                 [51, 44] @ s_growth @ [57, 44] @ s_durability @ [52] @ [10] @
               s_skill @ [44] @ s_attribute @ [58] @ el_fire @ [54, 32] @ el_water @ [48, 44] @
                 s_route @ [58, 114] @ [10] @
               [91, 98, 93, 91, 49] @ s_grade @ [93] @ s_pet_search @ [10, 120, 10] @
               [91, 97, 93, 91, 50] @ s_grade @ [93] @ s_pet_search))
     = [[97], [98], [97]] \<and>
   parse_lines init_state [[91, 97, 93] @ s_pet_search]
     = Inr \<lparr>pets = [([97], [(k_name, JStr [97]), (k_grade, JStr g_normal)])], current = Some [97]\<rparr> \<and>
   is_init_line (s_initial @ [58] @ s_level @ [49, 44] @ s_attack @ [49, 48, 44] @ s_defense @ [53, 44] @
                 s_agility @ [55, 44] @ s_durability @ [50, 48]) \<and>
   parse_lines init_state
     ([[91, 97, 93] @ s_pet_search] @
      [s_initial @ [58] @ s_level @ [49, 44] @ s_attack @ [49, 48, 44] @ s_defense @ [53, 44] @
                 s_agility @ [55, 44] @ s_durability @ [50, 48]])
     = Inr \<lparr>pets = [([97], [(k_name, JStr [97]), (k_grade, JStr g_normal),
                    (k_s0, JDict [(k_atk, JInt 10), (k_def, JInt 5), (k_agi, JInt 7), (k_hp, JInt 20)])])],
            current = Some [97]\<rparr>"
  using header_names_once[of
      "[91, 97, 93] @ s_pet_search @ [10] @
               s_initial @ [58] @ s_level @ [49, 44] @ s_attack @ [49, 48, 44] @ s_defense @ [53, 44] @
                 s_agility @ [55, 44] @ s_durability @ [50, 48] @ [10] @
               s_growth @ [58] @ s_attack @ [49, 46, 53, 44] @ s_defense @ [50, 44] @ s_agility @
                 [51, 44] @ s_growth @ [57, 44] @ s_durability @ [52] @ [10] @
               s_skill @ [44] @ s_attribute @ [58] @ el_fire @ [54, 32] @ el_water @ [48, 44] @
                 s_route @ [58, 114] @ [10] @
               [91, 98, 93, 91, 49] @ s_grade @ [93] @ s_pet_search @ [10, 120, 10] @
               [91, 97, 93, 91, 50] @ s_grade @ [93] @ s_pet_search"
      "[[91, 97, 93] @ s_pet_search]"
      "s_initial @ [58] @ s_level @ [49, 44] @ s_attack @ [49, 48, 44] @ s_defense @ [53, 44] @
                 s_agility @ [55, 44] @ s_durability @ [50, 48]"]
  by (simp add: parse_eval text_eval re_eval line_eval List.map_filter_simps is_number_def)

text \<open>
  C8. Reading the same base-stat line, or the same growth-stat line, twice in succession
  leaves the scan in the state that reading it once does, whatever the state before: in
  particular the \<open>s0\<close> (\<open>sg\<close>) mapping of the current record is the same.
\<close>

theorem stat_line_idempotent:
  assumes "is_init_line raw \<or> is_grow_line raw"
  shows "parse_lines st [raw, raw] = parse_lines st [raw]"
proof (cases "parse_line st raw")
  case (Inl e)
  then show ?thesis by (simp add: and_then_def)
next
  case (Inr st')
  from stat_line_step_idem[OF assms Inr] Inr show ?thesis by (simp add: and_then_def)
qed

theorem stat_line_idempotent_witness:
  "is_init_line ([52488, 44592, 58, 47112, 48296, 49, 44] @ s_attack @ [49, 48, 44] @ s_defense @ [53, 44] @
                 s_agility @ [55, 44] @ s_durability @ [50, 48]) \<and>
   parse_lines \<lparr>pets = [([97], [(k_name, JStr [97])])], current = Some [97]\<rparr>
     [[52488, 44592, 58, 47112, 48296, 49, 44] @ s_attack @ [49, 48, 44] @ s_defense @ [53, 44] @
        s_agility @ [55, 44] @ s_durability @ [50, 48],
      [52488, 44592, 58, 47112, 48296, 49, 44] @ s_attack @ [49, 48, 44] @ s_defense @ [53, 44] @
        s_agility @ [55, 44] @ s_durability @ [50, 48]]
   = Inr \<lparr>pets = [([97], [(k_name, JStr [97]),
                           (k_s0, JDict [(k_atk, JInt 10), (k_def, JInt 5), (k_agi, JInt 7), (k_hp, JInt 20)])])],
          current = Some [97]\<rparr>"
proof -
  have h: "is_init_line ([52488, 44592, 58, 47112, 48296, 49, 44] @ s_attack @ [49, 48, 44] @ s_defense @
                 [53, 44] @ s_agility @ [55, 44] @ s_durability @ [50, 48])"
    by (simp add: is_init_line_def text_eval re_eval)
  show ?thesis
    using h stat_line_idempotent[OF disjI1[OF h],
        of "\<lparr>pets = [([97], [(k_name, JStr [97])])], current = Some [97]\<rparr>"]
    by (simp add: parse_eval text_eval re_eval)
qed

text \<open>
  C2, as stated, fails for a record with two skill lines: a skill line whose four values
  are all zero writes nothing, and so it leaves in place the \<open>attr\<close> block that an earlier
  line with a positive value has written.
\<close>

theorem attr_kept_after_zero_line:
  "is_skill_line (s_skill @ [44] @ s_attribute @ [58] @ el_fire @ [48]) \<and>
   parse_attr (strip (s_skill @ [44] @ s_attribute @ [58] @ el_fire @ [48]))
     = Some (Inr [(el_earth, 0), (el_water, 0), (el_fire, 0), (el_wind, 0)]) \<and>
   parse_chat ([91, 97, 93] @ s_pet_search @ [10] @
               s_skill @ [44] @ s_attribute @ [58] @ el_fire @ [54] @ [10] @
               s_skill @ [44] @ s_attribute @ [58] @ el_fire @ [48])
     = Inr [([97], [(k_name, JStr [97]), (k_grade, JStr g_normal),
                    (k_attr, JDict [(el_earth, JInt 0), (el_water, JInt 0), (el_fire, JInt 6),
                                    (el_wind, JInt 0)])])]"
  by (simp add: parse_eval text_eval re_eval line_eval)

text \<open>
  C2, amended. When the lines \<open>ls\<close> have been read into the state \<open>s\<close> and the next line
  \<open>raw\<close> leads to \<open>s'\<close>: if \<open>raw\<close> is a skill line whose attribute segment gives a positive
  value, the \<open>attr\<close> of the current record becomes the block of exactly the four keys
  earth, water, fire, wind with the values of that line; in every other case (a skill line
  whose four values are all zero, or without well-formed token, or without segment, any
  other line, any other record) \<open>attr\<close> is what it was, absent if it was absent. So in
  every output of \<open>parse_chat\<close> a record has an \<open>attr\<close> exactly if a skill line with a
  positive value was read while the record was current, and every \<open>attr\<close> is a block of
  the four keys, no value negative and one positive.
\<close>

theorem attr_block:
  "(\<forall>s s'. parse_lines init_state ls = Inr s \<and> parse_lines init_state (ls @ [raw]) = Inr s' \<longrightarrow>
       (\<forall>n. current s = Some n \<and> positive_skill_line raw \<longrightarrow>
          (\<exists>a b c d. 0 \<le> a \<and> 0 \<le> b \<and> 0 \<le> c \<and> 0 \<le> d \<and> (0 < a \<or> 0 < b \<or> 0 < c \<or> 0 < d) \<and>
             parse_attr (strip raw) =
               Some (Inr [(el_earth, a), (el_water, b), (el_fire, c), (el_wind, d)]) \<and>
             field_of s' n k_attr =
               Some (JDict [(el_earth, JInt a), (el_water, JInt b), (el_fire, JInt c),
                            (el_wind, JInt d)]))) \<and>
       (\<forall>n. \<not> (current s = Some n \<and> positive_skill_line raw) \<longrightarrow>
          field_of s' n k_attr = field_of s n k_attr)) \<and>
   (positive_skill_line raw \<longleftrightarrow>
      is_skill_line raw \<and>
      (\<exists>a b c d. 0 \<le> a \<and> 0 \<le> b \<and> 0 \<le> c \<and> 0 \<le> d \<and> (0 < a \<or> 0 < b \<or> 0 < c \<or> 0 < d) \<and>
         parse_attr (strip raw) =
           Some (Inr [(el_earth, a), (el_water, b), (el_fire, c), (el_wind, d)]))) \<and>
   (\<forall>x. parse_attr line = Some (Inr x) \<longrightarrow>
      (\<exists>a b c d. 0 \<le> a \<and> 0 \<le> b \<and> 0 \<le> c \<and> 0 \<le> d \<and>
         x = [(el_earth, a), (el_water, b), (el_fire, c), (el_wind, d)])) \<and>
   (\<forall>ps. parse_chat text = Inr ps \<longrightarrow>
      (\<forall>n. (\<exists>rec v. dict_get ps n = Some rec \<and> dict_get rec k_attr = Some v) \<longleftrightarrow>
           (\<exists>ls1 skill ls2 s. splitlines text = ls1 @ skill # ls2 \<and>
               parse_lines init_state ls1 = Inr s \<and> current s = Some n \<and>
               positive_skill_line skill)) \<and>
      (\<forall>n rec v. dict_get ps n = Some rec \<and> dict_get rec k_attr = Some v \<longrightarrow>
         (\<exists>a b c d. 0 \<le> a \<and> 0 \<le> b \<and> 0 \<le> c \<and> 0 \<le> d \<and> (0 < a \<or> 0 < b \<or> 0 < c \<or> 0 < d) \<and>
            v = JDict [(el_earth, JInt a), (el_water, JInt b), (el_fire, JInt c),
                       (el_wind, JInt d)])))"
proof (intro conjI allI impI)
  fix s s' n
  assume a: "parse_lines init_state ls = Inr s \<and> parse_lines init_state (ls @ [raw]) = Inr s'"
    and b: "current s = Some n \<and> positive_skill_line raw"
  from a have s: "parse_lines init_state ls = Inr s" by simp
  have ok: "state_ok s" by (rule parse_lines_inv[OF state_ok_init s])
  from a parse_lines_snoc[OF s, of raw] have s': "parse_line s raw = Inr s'" by simp
  from b have "current s = Some n" "positive_skill_line raw" by simp_all
  from attr_set[OF ok s' this]
  show "\<exists>a b c d. 0 \<le> a \<and> 0 \<le> b \<and> 0 \<le> c \<and> 0 \<le> d \<and> (0 < a \<or> 0 < b \<or> 0 < c \<or> 0 < d) \<and>
             parse_attr (strip raw) =
               Some (Inr [(el_earth, a), (el_water, b), (el_fire, c), (el_wind, d)]) \<and>
             field_of s' n k_attr =
               Some (JDict [(el_earth, JInt a), (el_water, JInt b), (el_fire, JInt c),
                            (el_wind, JInt d)])" .
next
  fix s s' n
  assume a: "parse_lines init_state ls = Inr s \<and> parse_lines init_state (ls @ [raw]) = Inr s'"
    and b: "\<not> (current s = Some n \<and> positive_skill_line raw)"
  from a have s: "parse_lines init_state ls = Inr s" by simp
  have ok: "state_ok s" by (rule parse_lines_inv[OF state_ok_init s])
  from a parse_lines_snoc[OF s, of raw] have s': "parse_line s raw = Inr s'" by simp
  from attr_kept[OF ok s' b] show "field_of s' n k_attr = field_of s n k_attr" .
next
  show "positive_skill_line raw \<longleftrightarrow>
      is_skill_line raw \<and>
      (\<exists>a b c d. 0 \<le> a \<and> 0 \<le> b \<and> 0 \<le> c \<and> 0 \<le> d \<and> (0 < a \<or> 0 < b \<or> 0 < c \<or> 0 < d) \<and>
         parse_attr (strip raw) =
           Some (Inr [(el_earth, a), (el_water, b), (el_fire, c), (el_wind, d)]))"
    by (rule positive_skill_line_iff)
next
  fix x assume "parse_attr line = Some (Inr x)"
  then show "\<exists>a b c d. 0 \<le> a \<and> 0 \<le> b \<and> 0 \<le> c \<and> 0 \<le> d \<and>
         x = [(el_earth, a), (el_water, b), (el_fire, c), (el_wind, d)]"
    by (rule parse_attr_block)
next
  fix ps n assume p: "parse_chat text = Inr ps"
  then obtain st where st: "parse_lines init_state (splitlines text) = Inr st" and ps: "ps = pets st"
    by (auto simp: parse_chat_Inr)
  have "(\<exists>rec v. dict_get ps n = Some rec \<and> dict_get rec k_attr = Some v)
          \<longleftrightarrow> field_of st n k_attr \<noteq> None"
    unfolding ps field_of_def by (cases "dict_get (pets st) n") auto
  with attr_present_iff[OF st, of n]
  show "(\<exists>rec v. dict_get ps n = Some rec \<and> dict_get rec k_attr = Some v) \<longleftrightarrow>
           (\<exists>ls1 skill ls2 s. splitlines text = ls1 @ skill # ls2 \<and>
               parse_lines init_state ls1 = Inr s \<and> current s = Some n \<and>
               positive_skill_line skill)" by simp
next
  fix ps n rec v
  assume p: "parse_chat text = Inr ps" and a: "dict_get ps n = Some rec \<and> dict_get rec k_attr = Some v"
  from p obtain st where st: "parse_lines init_state (splitlines text) = Inr st" and ps: "ps = pets st"
    by (auto simp: parse_chat_Inr)
  have "state_ok st" by (rule parse_lines_inv[OF state_ok_init st])
  with a ps have "record_ok n rec" by (simp add: state_ok_def)
  with a show "\<exists>a b c d. 0 \<le> a \<and> 0 \<le> b \<and> 0 \<le> c \<and> 0 \<le> d \<and> (0 < a \<or> 0 < b \<or> 0 < c \<or> 0 < d) \<and>
            v = JDict [(el_earth, JInt a), (el_water, JInt b), (el_fire, JInt c),
                       (el_wind, JInt d)]"
    unfolding record_ok_def by auto
qed

theorem attr_block_witness:
  "parse_lines init_state [[91, 97, 93] @ s_pet_search]
     = Inr \<lparr>pets = [([97], [(k_name, JStr [97]), (k_grade, JStr g_normal)])], current = Some [97]\<rparr> \<and>
   positive_skill_line (s_skill @ [44] @ s_attribute @ [58] @ el_fire @ [54, 32] @ el_water @ [48]) \<and>
   parse_attr (strip (s_skill @ [44] @ s_attribute @ [58] @ el_fire @ [54, 32] @ el_water @ [48]))
     = Some (Inr [(el_earth, 0), (el_water, 0), (el_fire, 6), (el_wind, 0)]) \<and>
   parse_lines init_state
     ([[91, 97, 93] @ s_pet_search] @
      [s_skill @ [44] @ s_attribute @ [58] @ el_fire @ [54, 32] @ el_water @ [48]])
     = Inr \<lparr>pets = [([97], [(k_name, JStr [97]), (k_grade, JStr g_normal),
                    (k_attr, JDict [(el_earth, JInt 0), (el_water, JInt 0), (el_fire, JInt 6),
                                    (el_wind, JInt 0)])])],
            current = Some [97]\<rparr> \<and>
   \<not> positive_skill_line (s_skill @ [44] @ s_attribute @ [58] @ el_fire @ [48, 32, 120]) \<and>
   parse_chat ([91, 97, 93] @ s_pet_search @ [10] @
               s_skill @ [44] @ s_attribute @ [58] @ el_fire @ [54, 32] @ el_water @ [48] @ [10] @
               [91, 98, 93] @ s_pet_search @ [10] @
               s_skill @ [44] @ s_attribute @ [58] @ el_fire @ [48, 32, 120])
     = Inr [([97], [(k_name, JStr [97]), (k_grade, JStr g_normal),
                    (k_attr, JDict [(el_earth, JInt 0), (el_water, JInt 0), (el_fire, JInt 6),
                                    (el_wind, JInt 0)])]),
            ([98], [(k_name, JStr [98]), (k_grade, JStr g_normal)])]"
  using attr_block[of "[[91, 97, 93] @ s_pet_search]"
      "s_skill @ [44] @ s_attribute @ [58] @ el_fire @ [54, 32] @ el_water @ [48]"
      "strip (s_skill @ [44] @ s_attribute @ [58] @ el_fire @ [54, 32] @ el_water @ [48])"
      "[91, 97, 93] @ s_pet_search @ [10] @
               s_skill @ [44] @ s_attribute @ [58] @ el_fire @ [54, 32] @ el_water @ [48] @ [10] @
               [91, 98, 93] @ s_pet_search @ [10] @
               s_skill @ [44] @ s_attribute @ [58] @ el_fire @ [48, 32, 120]"]
  by (simp add: parse_eval text_eval re_eval line_eval)

text \<open>
  C5. In every output of \<open>parse_chat\<close> a record has no field beyond the six, and every
  \<open>sg\<close> field is a mapping of exactly the keys \<open>atk\<close>, \<open>def\<close>, \<open>agi\<close>, \<open>hp\<close>. Wherever
  \<open>GROW_RE\<close> matches, the line contains, between the agility and the durability figures,
  the label and a number \<open>total\<close> (the aggregate growth); that number is in none of the
  four groups of the match, and what the line stores in \<open>sg\<close> is the floats of the four
  groups only.
\<close>

theorem growth_total_not_stored:
  "(\<forall>ps. parse_chat text = Inr ps \<longrightarrow>
      (\<forall>n rec. dict_get ps n = Some rec \<longrightarrow>
         set (map fst rec) \<subseteq> {k_name, k_grade, k_s0, k_sg, k_attr, k_route} \<and>
         (\<forall>v. dict_get rec k_sg = Some v \<longrightarrow>
            (\<exists>a d g h. v = JDict [(k_atk, JFloat a), (k_def, JFloat d), (k_agi, JFloat g),
                                  (k_hp, JFloat h)])))) \<and>
   (\<forall>m. re_search GROW_RE line = Some m \<longrightarrow>
      (\<exists>pre w1 w2 w3 a w4 w5 d w6 w7 g w8 w9 total w10 w11 h post qa qd qg qh.
         line = pre @ s_growth @ w1 @ 58 # w2 @
                s_attack @ w3 @ a @ 44 # w4 @
                s_defense @ w5 @ d @ 44 # w6 @
                s_agility @ w7 @ g @ 44 # w8 @
                s_growth @ w9 @ total @ 44 # w10 @
                s_durability @ w11 @ h @ post \<and>
         is_number total \<and>
         m = [(''hp'', h), (''agi'', g), (''def'', d), (''atk'', a)] \<and>
         py_float (Some a) = Inr qa \<and> py_float (Some d) = Inr qd \<and>
         py_float (Some g) = Inr qg \<and> py_float (Some h) = Inr qh \<and>
         on_grow m r = setdefault_update r k_sg
           [(k_atk, JFloat qa), (k_def, JFloat qd), (k_agi, JFloat qg), (k_hp, JFloat qh)]))"
proof (intro conjI allI impI)
  fix ps n rec
  assume p: "parse_chat text = Inr ps" and rec: "dict_get ps n = Some rec"
  from p obtain st where st: "parse_lines init_state (splitlines text) = Inr st" and ps: "ps = pets st"
    by (auto simp: parse_chat_Inr)
  have "state_ok st" by (rule parse_lines_inv[OF state_ok_init st])
  with rec ps have ok: "record_ok n rec" by (simp add: state_ok_def)
  then show "set (map fst rec) \<subseteq> {k_name, k_grade, k_s0, k_sg, k_attr, k_route}"
    unfolding record_ok_def by blast
  fix v assume "dict_get rec k_sg = Some v"
  with ok show "\<exists>a d g h. v = JDict [(k_atk, JFloat a), (k_def, JFloat d), (k_agi, JFloat g),
                                  (k_hp, JFloat h)]"
    unfolding record_ok_def by auto
next
  fix m assume m: "re_search GROW_RE line = Some m"
  from grow_groups[OF m] obtain pre w1 w2 w3 a w4 w5 d w6 w7 g w8 w9 total w10 w11 h post where
    l: "line = pre @ s_growth @ w1 @ 58 # w2 @
                s_attack @ w3 @ a @ 44 # w4 @
                s_defense @ w5 @ d @ 44 # w6 @
                s_agility @ w7 @ g @ 44 # w8 @
                s_growth @ w9 @ total @ 44 # w10 @
                s_durability @ w11 @ h @ post"
    and n: "is_number a" "is_number d" "is_number g" "is_number total" "is_number h"
    and mm: "m = [(''hp'', h), (''agi'', g), (''def'', d), (''atk'', a)]" by blast
  from py_float_number[OF n(1)] obtain qa where qa: "py_float (Some a) = Inr qa" by blast
  from py_float_number[OF n(2)] obtain qd where qd: "py_float (Some d) = Inr qd" by blast
  from py_float_number[OF n(3)] obtain qg where qg: "py_float (Some g) = Inr qg" by blast
  from py_float_number[OF n(5)] obtain qh where qh: "py_float (Some h) = Inr qh" by blast
  have e: "on_grow m r = setdefault_update r k_sg
      [(k_atk, JFloat qa), (k_def, JFloat qd), (k_agi, JFloat qg), (k_hp, JFloat qh)]"
    using mm qa qd qg qh by (simp add: on_grow_def group_def and_then_def)
  show "\<exists>pre w1 w2 w3 a w4 w5 d w6 w7 g w8 w9 total w10 w11 h post qa qd qg qh.
         line = pre @ s_growth @ w1 @ 58 # w2 @
                s_attack @ w3 @ a @ 44 # w4 @
                s_defense @ w5 @ d @ 44 # w6 @
                s_agility @ w7 @ g @ 44 # w8 @
                s_growth @ w9 @ total @ 44 # w10 @
                s_durability @ w11 @ h @ post \<and>
         is_number total \<and>
         m = [(''hp'', h), (''agi'', g), (''def'', d), (''atk'', a)] \<and>
         py_float (Some a) = Inr qa \<and> py_float (Some d) = Inr qd \<and>
         py_float (Some g) = Inr qg \<and> py_float (Some h) = Inr qh \<and>
         on_grow m r = setdefault_update r k_sg
           [(k_atk, JFloat qa), (k_def, JFloat qd), (k_agi, JFloat qg), (k_hp, JFloat qh)]"
    by (intro exI conjI) (rule l, rule n(4), rule mm, rule qa, rule qd, rule qg, rule qh, rule e)
qed

theorem growth_total_not_stored_witness:
  "re_search GROW_RE (s_growth @ [58] @ s_attack @ [49, 46, 53, 44] @ s_defense @ [50, 44] @ s_agility @
                      [51, 44] @ s_growth @ [57, 44] @ s_durability @ [52])
     = Some [(''hp'', [52]), (''agi'', [51]), (''def'', [50]), (''atk'', [49, 46, 53])] \<and>
   parse_chat ([91, 97, 93] @ s_pet_search @ [10] @
               s_growth @ [58] @ s_attack @ [49, 46, 53, 44] @ s_defense @ [50, 44] @ s_agility @
                      [51, 44] @ s_growth @ [57, 44] @ s_durability @ [52])
     = Inr [([97], [(k_name, JStr [97]), (k_grade, JStr g_normal),
                    (k_sg, JDict [(k_atk, JFloat (3 / 2)), (k_def, JFloat 2), (k_agi, JFloat 3),
                                  (k_hp, JFloat 4)])])]"
  using growth_total_not_stored[of "[91, 97, 93] @ s_pet_search @ [10] @
               s_growth @ [58] @ s_attack @ [49, 46, 53, 44] @ s_defense @ [50, 44] @ s_agility @
                      [51, 44] @ s_growth @ [57, 44] @ s_durability @ [52]"
      "s_growth @ [58] @ s_attack @ [49, 46, 53, 44] @ s_defense @ [50, 44] @ s_agility @
                      [51, 44] @ s_growth @ [57, 44] @ s_durability @ [52]" "[]"]
  by (simp add: parse_eval text_eval re_eval is_number_def)

end
